theory Spec2Isabelle
  imports Main "HOL-Library.Word" "HOL-Library.Multiset"
begin

section \<open>External sort of key-value files: the record codec\<close>

text \<open>
  The program under study is \<open>sort_bigdatafile.cpp\<close>. A file is a byte string, a path is
  a string. \<open>uint64_t\<close> is \<open>64 word\<close>; \<open>size_t\<close> counters (line numbers, batch numbers)
  are \<open>nat\<close>: they count lines of one file and do not reach \<open>2 ^ 64\<close>.
\<close>

type_synonym path = string

text \<open>\<open>struct KeyValuePair\<close> (source lines 13-17).\<close>

record KeyValuePair =
  key :: "64 word"
  val :: string
  originalIndex :: nat

subsection \<open>Decimal text\<close>

definition newline :: char where
  "newline = CHR 0x0A"

definition is_digit :: "char \<Rightarrow> bool" where
  "is_digit c = (48 \<le> (of_char c :: nat) \<and> (of_char c :: nat) \<le> 57)"

definition digit_val :: "char \<Rightarrow> nat" where
  "digit_val c = (of_char c :: nat) - 48"

definition digit_char :: "nat \<Rightarrow> char" where
  "digit_char d = ''0123456789'' ! d"

text \<open>The value of a run of decimal digits, most significant first.\<close>

definition dec_val :: "string \<Rightarrow> nat" where
  "dec_val ds = foldl (\<lambda>a c. 10 * a + digit_val c) 0 ds"

text \<open>
  \<open>std::to_string\<close> and \<open>operator<<\<close> on an unsigned integer: the decimal digits without
  leading zeros.
\<close>

fun to_string :: "nat \<Rightarrow> string" where
  "to_string n =
     (if n < 10 then [digit_char n] else to_string (n div 10) @ [digit_char (n mod 10)])"

declare to_string.simps [simp del]

text \<open>
  \<open>std::from_chars(first, last, value)\<close> for an unsigned 64-bit \<open>value\<close>, base 10: the
  longest prefix of decimal digits is the pattern (no sign, no white space is skipped).
  No digit: \<open>invalid_argument\<close>. A value that does not fit: \<open>result_out_of_range\<close>. In
  both cases \<open>value\<close> is left as it was. The returned pointer is not modelled: the program
  never reads it.
\<close>

datatype errc = errc_ok | invalid_argument | result_out_of_range

definition from_chars :: "string \<Rightarrow> 64 word \<Rightarrow> errc \<times> 64 word" where
  "from_chars s v =
     (let ds = takeWhile is_digit s in
      if ds = [] then (invalid_argument, v)
      else if dec_val ds > 2 ^ 64 - 1 then (result_out_of_range, v)
      else (errc_ok, word_of_nat (dec_val ds)))"

subsection \<open>parseKeyValue and the output format\<close>

text \<open>
  \<open>parseKeyValue\<close> (source lines 20-42) returns a flag and writes \<open>key\<close> and \<open>value\<close> of its
  out-parameter; it never writes \<open>originalIndex\<close>. The model returns the flag and the
  pair as the call leaves it.
\<close>

definition parseKeyValue :: "string \<Rightarrow> KeyValuePair \<Rightarrow> bool \<times> KeyValuePair" where
  "parseKeyValue line pair =
     (if CHR '':'' \<notin> set line then (False, pair)
      else
        let colonPos = length (takeWhile (\<lambda>c. c \<noteq> CHR '':'') line);
            (ec, k) = from_chars (take colonPos line) (key pair)
        in if ec \<noteq> errc_ok then (False, pair\<lparr>key := k\<rparr>)
           else (True, pair\<lparr>key := k,
                   val := (if colonPos + 1 < length line then drop (colonPos + 1) line else [])\<rparr>))"

text \<open>The line the program writes for a pair (source lines 97 and 194), newline included.\<close>

definition format_line :: "KeyValuePair \<Rightarrow> string" where
  "format_line p = to_string (unat (key p)) @ '':'' @ val p @ [newline]"

text \<open>The same line without its newline: what \<open>std::getline\<close> gives back.\<close>

definition format_record :: "KeyValuePair \<Rightarrow> string" where
  "format_record p = to_string (unat (key p)) @ '':'' @ val p"

section \<open>Files and streams\<close>

text \<open>
  The file system as the program sees it: the bytes of each existing file, the paths that
  cannot be opened for reading and the paths that cannot be opened (created) for writing.
\<close>

record fs =
  file_at :: "path \<rightharpoonup> string"
  unreadable :: "path set"
  unwritable :: "path set"

text \<open>
  The lines \<open>std::getline\<close> delivers from a byte string: each line ends at a newline or
  at the end of the file; nothing follows a final newline.
\<close>

fun split_lines :: "string \<Rightarrow> string \<Rightarrow> string list" where
  "split_lines cur [] = (if cur = [] then [] else [cur])"
| "split_lines cur (c # cs) =
     (if c = newline then cur # split_lines [] cs else split_lines (cur @ [c]) cs)"

definition lines_of :: "string \<Rightarrow> string list" where
  "lines_of content = split_lines [] content"

text \<open>
  An \<open>std::ifstream\<close>: its fail bit and the lines not yet read. The stream holds the lines
  the file had when it was opened; the program never writes a file while it reads the same
  path, except when the input path is itself one of the temporary paths, a case this model
  does not cover.
\<close>

record ifstream =
  failbit :: bool
  pending :: "string list"

definition open_ifstream :: "fs \<Rightarrow> path \<Rightarrow> ifstream" where
  "open_ifstream s p =
     (case file_at s p of
        None \<Rightarrow> \<lparr>failbit = True, pending = []\<rparr>
      | Some content \<Rightarrow>
          if p \<in> unreadable s then \<lparr>failbit = True, pending = []\<rparr>
          else \<lparr>failbit = False, pending = lines_of content\<rparr>)"

definition getline :: "ifstream \<Rightarrow> string option \<times> ifstream" where
  "getline f =
     (if failbit f then (None, f)
      else case pending f of
             [] \<Rightarrow> (None, f\<lparr>failbit := True\<rparr>)
           | line # rest \<Rightarrow> (Some line, f\<lparr>pending := rest\<rparr>))"

text \<open>
  Opening an \<open>std::ofstream\<close> creates or truncates the file, or fails and leaves the file
  system as it was. The text written through the stream is stored by \<open>write_file\<close>.
\<close>

definition open_ofstream :: "fs \<Rightarrow> path \<Rightarrow> bool \<times> fs" where
  "open_ofstream s p =
     (if p \<in> unwritable s then (False, s) else (True, s\<lparr>file_at := (file_at s)(p \<mapsto> [])\<rparr>))"

definition write_file :: "fs \<Rightarrow> path \<Rightarrow> string \<Rightarrow> fs" where
  "write_file s p text = s\<lparr>file_at := (file_at s)(p \<mapsto> text)\<rparr>"

definition rdbuf :: "fs \<Rightarrow> path \<Rightarrow> string" where
  "rdbuf s p = (case file_at s p of None \<Rightarrow> [] | Some content \<Rightarrow> content)"

definition remove_file :: "fs \<Rightarrow> path \<Rightarrow> fs" where
  "remove_file s p = s\<lparr>file_at := (file_at s)(p := None)\<rparr>"

section \<open>FileSorter\<close>

text \<open>
  \<open>BATCH_SIZE\<close> (source line 51) is a compile-time constant. The functions below take the
  batch size as their first argument \<open>B\<close>; the program is the instance \<open>B = BATCH_SIZE\<close>.
\<close>

definition BATCH_SIZE :: nat where
  "BATCH_SIZE = 1000000"

definition createTempFile :: "path \<Rightarrow> nat \<Rightarrow> path" where
  "createTempFile outputPath index = outputPath @ ''.temp'' @ to_string index"

subsection \<open>sortBatch\<close>

text \<open>
  The reading loop of \<open>sortBatch\<close> (source lines 66-76). The local \<open>pair\<close> of each round
  starts with an unset key, written here as 0: a successful parse overwrites it and a
  failed parse discards the pair.
\<close>

function readBatch ::
  "nat \<Rightarrow> nat \<Rightarrow> ifstream \<Rightarrow> KeyValuePair list \<Rightarrow> nat \<Rightarrow> KeyValuePair list \<times> nat \<times> ifstream"
where
  "readBatch B linesProcessed input batch lineIndex =
     (if length batch < B then
        (case getline input of
           (None, input') \<Rightarrow> (batch, lineIndex, input')
         | (Some line, input') \<Rightarrow>
             (case parseKeyValue line
                     \<lparr>key = 0, val = [], originalIndex = linesProcessed + lineIndex\<rparr> of
                (True, pair) \<Rightarrow>
                  readBatch B linesProcessed input' (batch @ [pair]) (lineIndex + 1)
              | (False, pair) \<Rightarrow>
                  readBatch B linesProcessed input' batch (lineIndex + 1)))
      else (batch, lineIndex, input))"
  by pat_completeness auto
termination
  by (relation "measure (\<lambda>(B, linesProcessed, input, batch, lineIndex). length (pending input))")
     (auto simp: getline_def split: if_splits list.splits)

declare readBatch.simps [simp del]

text \<open>
  \<open>sortBatch\<close> (source lines 59-102). \<open>std::stable_sort\<close> with the comparison
  \<open>a.key < b.key\<close> is \<open>sort_key key\<close>, the stable insertion sort of the list library, on
  the unsigned order of \<open>64 word\<close>. The result is the returned flag, the file system, the
  input stream and \<open>linesProcessed\<close> as the call leaves them.
\<close>

definition sortBatch ::
  "nat \<Rightarrow> path \<Rightarrow> fs \<Rightarrow> ifstream \<Rightarrow> nat \<Rightarrow> nat \<Rightarrow> bool \<times> fs \<times> ifstream \<times> nat"
where
  "sortBatch B outputPath s input batchIndex linesProcessed =
     (case readBatch B linesProcessed input [] 0 of
        (batch, lineIndex, input') \<Rightarrow>
          if batch = [] then (False, s, input', linesProcessed)
          else
            let sorted = sort_key key batch;
                tempFile = createTempFile outputPath batchIndex
            in case open_ofstream s tempFile of
                 (ok, s1) \<Rightarrow>
                   if \<not> ok then (False, s1, input', linesProcessed)
                   else (True, write_file s1 tempFile (concat (map format_line sorted)),
                         input', linesProcessed + lineIndex))"

subsection \<open>The batch phase\<close>

text \<open>
  The loop of \<open>FileSorter::sort\<close> (source lines 226-228): \<open>sortBatch\<close> is called until it
  returns false. The result is the file system and \<open>tempFileCount\<close> after the loop.
\<close>

function sortLoop :: "nat \<Rightarrow> path \<Rightarrow> fs \<Rightarrow> ifstream \<Rightarrow> nat \<Rightarrow> nat \<Rightarrow> fs \<times> nat" where
  "sortLoop B outputPath s input tempFileCount linesProcessed =
     (case sortBatch B outputPath s input tempFileCount linesProcessed of
        (True, s', input', linesProcessed') \<Rightarrow>
          sortLoop B outputPath s' input' (tempFileCount + 1) linesProcessed'
      | (False, s', input', linesProcessed') \<Rightarrow> (s', tempFileCount))"
  by pat_completeness auto
termination
proof -
  have consumed: "length (pending (snd (snd (readBatch B lp inp batch li)))) \<le> length (pending inp) \<and>
      (length batch < length (fst (readBatch B lp inp batch li)) \<longrightarrow>
       length (pending (snd (snd (readBatch B lp inp batch li)))) < length (pending inp))"
    for B lp inp batch li
  proof (induction B lp inp batch li rule: readBatch.induct)
    case (1 B lp inp batch li)
    show ?case
    proof (cases "length batch < B")
      case False
      then show ?thesis by (subst (1 2 3) readBatch.simps) simp
    next
      case True
      show ?thesis
      proof (cases "getline inp")
        case (Pair l inp')
        show ?thesis
        proof (cases l)
          case None
          with True Pair show ?thesis
            by (subst (1 2 3) readBatch.simps)
               (auto simp: getline_def split: if_splits list.splits)
        next
          case (Some line)
          with Pair have len: "length (pending inp') < length (pending inp)"
            by (auto simp: getline_def split: if_splits list.splits)
          obtain ok pair where pk:
            "parseKeyValue line \<lparr>key = 0, val = [], originalIndex = lp + li\<rparr> = (ok, pair)"
            by (cases "parseKeyValue line \<lparr>key = 0, val = [], originalIndex = lp + li\<rparr>")
          show ?thesis
          proof (cases ok)
            case True
            note ok = this
            have "length (pending (snd (snd (readBatch B lp inp' (batch @ [pair]) (li + 1)))))
                    \<le> length (pending inp')"
              using "1.IH"(1) [OF \<open>length batch < B\<close> Pair [symmetric] Some pk [symmetric]] ok
              by simp
            with len \<open>length batch < B\<close> Pair Some pk ok show ?thesis
              by (subst (1 2 3) readBatch.simps) simp
          next
            case False
            note nok = this
            have "length (pending (snd (snd (readBatch B lp inp' batch (li + 1)))))
                    \<le> length (pending inp')"
              using "1.IH"(2) [OF \<open>length batch < B\<close> Pair [symmetric] Some pk [symmetric]] nok
              by simp
            with len \<open>length batch < B\<close> Pair Some pk nok show ?thesis
              by (subst (1 2 3) readBatch.simps) simp
          qed
        qed
      qed
    qed
  qed
  have dec: "length (pending input') < length (pending input)"
    if "(True, s', input', lp') = sortBatch B outputPath s input n lp"
    for B outputPath s input n lp s' input' lp'
  proof -
    obtain batch li inp' where rb: "readBatch B lp input [] 0 = (batch, li, inp')"
      by (cases "readBatch B lp input [] 0") auto
    from that [symmetric] rb have "batch \<noteq> []" and "input' = inp'"
      by (auto simp: sortBatch_def Let_def split: if_splits prod.splits)
    with consumed [of B lp input "[]" 0] rb show ?thesis by simp
  qed
  show ?thesis
    by (relation "measure (\<lambda>(B, outputPath, s, input, tempFileCount, linesProcessed).
                            length (pending input))")
       (auto dest: dec)
qed


declare sortLoop.simps [simp del]

subsection \<open>mergeTempFiles\<close>

text \<open>
  \<open>struct FileEntry\<close> (source lines 129-150); the stream member \<open>file\<close> is \<open>fstream\<close> here.
  \<open>readNext\<close> passes \<open>currentPair\<close> to \<open>parseKeyValue\<close>, which writes \<open>key\<close> and \<open>value\<close>
  only.
\<close>

record FileEntry =
  fstream :: ifstream
  currentPair :: KeyValuePair
  hasNext :: bool

function readNext :: "FileEntry \<Rightarrow> FileEntry" where
  "readNext e =
     (case getline (fstream e) of
        (Some line, f') \<Rightarrow>
          (case parseKeyValue line (currentPair e) of
             (True, pair) \<Rightarrow> e\<lparr>fstream := f', currentPair := pair, hasNext := True\<rparr>
           | (False, pair) \<Rightarrow> readNext (e\<lparr>fstream := f', currentPair := pair\<rparr>))
      | (None, f') \<Rightarrow> e\<lparr>fstream := f', hasNext := False\<rparr>)"
  by pat_completeness auto
termination
  by (relation "measure (\<lambda>e. length (pending (fstream e)))")
     (auto simp: getline_def split: if_splits list.splits)

declare readNext.simps [simp del]

text \<open>
  The constructor (source lines 134-136) names \<open>file\<close> and \<open>hasNext\<close> in its initialiser
  list and not \<open>currentPair\<close>: the string \<open>value\<close> starts empty, \<open>key\<close> and
  \<open>originalIndex\<close> start as whatever the storage of the vector held. That content is the
  argument \<open>slot\<close>; \<open>uninit i\<close> below is the content of the storage of entry \<open>i\<close>.
\<close>

definition FileEntry_new :: "fs \<Rightarrow> path \<Rightarrow> KeyValuePair \<Rightarrow> FileEntry" where
  "FileEntry_new s p slot =
     readNext \<lparr>fstream = open_ifstream s p, currentPair = slot\<lparr>val := []\<rparr>, hasNext = False\<rparr>"

text \<open>The loop that opens the run files (source lines 156-162); \<open>None\<close> is its \<open>return false\<close>.\<close>

function openFiles ::
  "fs \<Rightarrow> path \<Rightarrow> (nat \<Rightarrow> KeyValuePair) \<Rightarrow> nat \<Rightarrow> nat \<Rightarrow> FileEntry list \<Rightarrow> FileEntry list option"
where
  "openFiles s outputPath uninit tempFileCount i files =
     (if i < tempFileCount then
        (let e = FileEntry_new s (createTempFile outputPath i) (uninit i) in
         if failbit (fstream e) then None
         else openFiles s outputPath uninit tempFileCount (i + 1) (files @ [e]))
      else Some files)"
  by pat_completeness auto
termination
  by (relation "measure (\<lambda>(s, outputPath, uninit, tempFileCount, i, files). tempFileCount - i)")
     auto

declare openFiles.simps [simp del]

text \<open>
  The selection loop (source lines 174-187): one round for index \<open>i\<close> on the pair
  \<open>(minIndex, foundValid)\<close>, and the whole scan over \<open>0 ..< files.size()\<close>.
\<close>

definition selectStep :: "FileEntry list \<Rightarrow> nat \<times> bool \<Rightarrow> nat \<Rightarrow> nat \<times> bool" where
  "selectStep files st i =
     (case st of
        (minIndex, foundValid) \<Rightarrow>
          if hasNext (files ! i) \<and>
             (\<not> foundValid \<or>
              key (currentPair (files ! i)) < key (currentPair (files ! minIndex)) \<or>
              (key (currentPair (files ! i)) = key (currentPair (files ! minIndex)) \<and>
               originalIndex (currentPair (files ! i))
                 < originalIndex (currentPair (files ! minIndex))))
          then (i, True)
          else (minIndex, foundValid))"

definition selectMin :: "FileEntry list \<Rightarrow> nat \<times> bool" where
  "selectMin files = foldl (selectStep files) (0, False) [0..<length files]"

text \<open>
  The merge loop (source lines 172-198), with the text written to the output so far. Each
  round reads from an entry that has a pair, so the loop ends.
\<close>

function mergeLoop :: "FileEntry list \<Rightarrow> string \<Rightarrow> FileEntry list \<times> string" where
  "mergeLoop files out =
     (case selectMin files of
        (minIndex, foundValid) \<Rightarrow>
          if \<not> foundValid then (files, out)
          else mergeLoop (files[minIndex := readNext (files ! minIndex)])
                 (out @ format_line (currentPair (files ! minIndex))))"
  by pat_completeness auto
termination
proof -
  let ?w = "\<lambda>e. length (pending (fstream e)) + (if hasNext e then 1 else 0)"
  have rn: "length (pending (fstream (readNext e))) + (if hasNext (readNext e) then 1 else 0)
              \<le> length (pending (fstream e))" for e
  proof (induction e rule: readNext.induct)
    case (1 e)
    show ?case
    proof (cases "getline (fstream e)")
      case (Pair l f')
      show ?thesis
      proof (cases l)
        case None
        with Pair show ?thesis
          by (subst (1 2) readNext.simps) (auto simp: getline_def split: if_splits list.splits)
      next
        case (Some line)
        with Pair have len: "length (pending f') < length (pending (fstream e))"
          by (auto simp: getline_def split: if_splits list.splits)
        obtain ok pair where pk: "parseKeyValue line (currentPair e) = (ok, pair)"
          by (cases "parseKeyValue line (currentPair e)")
        show ?thesis
        proof (cases ok)
          case True
          with Pair Some pk len show ?thesis
            by (subst (1 2) readNext.simps) simp
        next
          case False
          with "1.IH" [OF Pair [symmetric] Some pk [symmetric]] Pair Some pk len show ?thesis
            by (subst (1 2) readNext.simps) simp
        qed
      qed
    qed
  qed
  have sel: "snd (foldl (selectStep files) st is) \<Longrightarrow>
               (snd st \<and> fst (foldl (selectStep files) st is) = fst st) \<or>
               (fst (foldl (selectStep files) st is) \<in> set is \<and>
                hasNext (files ! fst (foldl (selectStep files) st is)))"
    for files st "is"
  proof (induction "is" arbitrary: st)
    case Nil
    then show ?case by simp
  next
    case (Cons i "is")
    from Cons.IH [of "selectStep files st i"] Cons.prems show ?case
      by (cases st) (auto simp: selectStep_def split: if_splits)
  qed
  have upd: "sum_list (map w (xs[m := y])) < sum_list (map w xs)"
    if "m < length xs" "w y < w (xs ! m)" for w :: "FileEntry \<Rightarrow> nat" and xs m y
    using that
  proof (induction xs arbitrary: m)
    case Nil
    then show ?case by simp
  next
    case (Cons x xs)
    then show ?case by (cases m) auto
  qed
  have dec: "sum_list (map ?w (files[m := readNext (files ! m)])) < sum_list (map ?w files)"
    if "(m, True) = selectMin files" for files m
  proof -
    from that [symmetric] sel [of files "(0, False)" "[0..<length files]"]
    have m: "m < length files" and h: "hasNext (files ! m)"
      by (auto simp: selectMin_def)
    have "?w (readNext (files ! m)) < ?w (files ! m)"
      using rn [of "files ! m"] h by simp
    with m show ?thesis by (rule upd)
  qed
  show ?thesis
    by (relation "measure (\<lambda>(files, out). sum_list (map ?w files))") (auto dest: dec)
qed

declare mergeLoop.simps [simp del]

text \<open>The closing loop (source lines 202-206).\<close>

definition removeTempFiles :: "path \<Rightarrow> nat \<Rightarrow> fs \<Rightarrow> fs" where
  "removeTempFiles outputPath tempFileCount s =
     foldl (\<lambda>s' i. remove_file s' (createTempFile outputPath i)) s [0..<tempFileCount]"

text \<open>
  \<open>mergeTempFiles\<close> (source lines 105-209). The text of the output stream is stored when
  the stream is closed; nothing reads the output path in between.
\<close>

definition mergeTempFiles :: "path \<Rightarrow> (nat \<Rightarrow> KeyValuePair) \<Rightarrow> fs \<Rightarrow> nat \<Rightarrow> bool \<times> fs" where
  "mergeTempFiles outputPath uninit s tempFileCount =
     (if tempFileCount = 0 then (False, s)
      else if tempFileCount = 1 then
        (let tempFile = createTempFile outputPath 0;
             input = open_ifstream s tempFile
         in case open_ofstream s outputPath of
              (ok, s1) \<Rightarrow>
                if failbit input \<or> \<not> ok then (False, s1)
                else (True, remove_file (write_file s1 outputPath (rdbuf s1 tempFile)) tempFile))
      else
        (case openFiles s outputPath uninit tempFileCount 0 [] of
           None \<Rightarrow> (False, s)
         | Some files \<Rightarrow>
             (case open_ofstream s outputPath of
                (ok, s1) \<Rightarrow>
                  if \<not> ok then (False, s1)
                  else case mergeLoop files [] of
                         (files', out) \<Rightarrow>
                           (True, removeTempFiles outputPath tempFileCount
                                    (write_file s1 outputPath out)))))"

subsection \<open>sort and main\<close>

text \<open>\<open>FileSorter::sort\<close> (source lines 215-245).\<close>

definition FileSorter_sort ::
  "nat \<Rightarrow> path \<Rightarrow> path \<Rightarrow> (nat \<Rightarrow> KeyValuePair) \<Rightarrow> fs \<Rightarrow> bool \<times> fs"
where
  "FileSorter_sort B inputPath outputPath uninit s =
     (let input = open_ifstream s inputPath in
      if failbit input then (False, s)
      else case sortLoop B outputPath s input 0 0 of
             (s1, tempFileCount) \<Rightarrow>
               if tempFileCount = 0 then
                 (case open_ofstream s1 outputPath of
                    (ok, s2) \<Rightarrow> if \<not> ok then (False, s2) else (True, s2))
               else mergeTempFiles outputPath uninit s1 tempFileCount)"

text \<open>
  \<open>main\<close> (source lines 248-276): \<open>argv\<close> holds the program name and the arguments; the
  result is the exit status and the file system. The timer and the messages are left out.
\<close>

definition main_exit :: "nat \<Rightarrow> string list \<Rightarrow> (nat \<Rightarrow> KeyValuePair) \<Rightarrow> fs \<Rightarrow> int \<times> fs" where
  "main_exit B argv uninit s =
     (if length argv \<noteq> 3 then (1, s)
      else case FileSorter_sort B (argv ! 1) (argv ! 2) uninit s of
             (ok, s') \<Rightarrow> if \<not> ok then (1, s') else (0, s'))"

section \<open>Observing files and batches\<close>

text \<open>
  What the program's own parser makes of a line: whether it accepts the line, and the key
  and the value it extracts. The records of a file are the pairs of its accepted lines, in
  the order of the lines.
\<close>

definition well_formed :: "string \<Rightarrow> bool" where
  "well_formed line = fst (parseKeyValue line \<lparr>key = 0, val = [], originalIndex = 0\<rparr>)"

definition kv_of :: "string \<Rightarrow> 64 word \<times> string" where
  "kv_of line =
     (let p = snd (parseKeyValue line \<lparr>key = 0, val = [], originalIndex = 0\<rparr>)
      in (key p, val p))"

definition kv_of_lines :: "string list \<Rightarrow> (64 word \<times> string) list" where
  "kv_of_lines ls = map kv_of (filter well_formed ls)"

definition records_of :: "string \<Rightarrow> (64 word \<times> string) list" where
  "records_of content = kv_of_lines (lines_of content)"

text \<open>
  The numbering that the reading loop of \<open>sortBatch\<close> is compared with: every line takes
  the next number, whether it is accepted or not, and the accepted lines give the records.
\<close>

fun numbered_records :: "nat \<Rightarrow> string list \<Rightarrow> KeyValuePair list" where
  "numbered_records idx [] = []"
| "numbered_records idx (line # rest) =
     (if well_formed line
      then \<lparr>key = fst (kv_of line), val = snd (kv_of line), originalIndex = idx\<rparr>
             # numbered_records (idx + 1) rest
      else numbered_records (idx + 1) rest)"

text \<open>The lines a stream can still deliver.\<close>

definition avail :: "ifstream \<Rightarrow> string list" where
  "avail f = (if failbit f then [] else pending f)"

text \<open>
  The records an entry of the merge still has to give: the pair in its head slot, if it
  has one, and then the records of the lines its stream can still deliver.
\<close>

definition head_kv :: "FileEntry \<Rightarrow> 64 word \<times> string" where
  "head_kv e = (key (currentPair e), val (currentPair e))"

definition rem_kv :: "FileEntry \<Rightarrow> (64 word \<times> string) list" where
  "rem_kv e = (if hasNext e then [head_kv e] else []) @ kv_of_lines (avail (fstream e))"

text \<open>The line written for a key and a value.\<close>

definition format_kv :: "64 word \<times> string \<Rightarrow> string" where
  "format_kv p = to_string (unat (fst p)) @ '':'' @ snd p @ [newline]"

text \<open>The comparison of the selection loop (source lines 180-182) on two entries.\<close>

definition entry_less :: "FileEntry \<Rightarrow> FileEntry \<Rightarrow> bool" where
  "entry_less a b =
     (key (currentPair a) < key (currentPair b) \<or>
      (key (currentPair a) = key (currentPair b) \<and>
       originalIndex (currentPair a) < originalIndex (currentPair b)))"

text \<open>
  The state of an entry during the merge: the keys it still has to give are in order, and
  an entry without a pair in its head slot has nothing left.
\<close>

definition entry_ok :: "FileEntry \<Rightarrow> bool" where
  "entry_ok e = (sorted (map fst (rem_kv e)) \<and> (hasNext e \<or> rem_kv e = []))"

text \<open>The key and the value of a pair, as the files hold them.\<close>

definition record_kv :: "KeyValuePair \<Rightarrow> 64 word \<times> string" where
  "record_kv r = (key r, val r)"


section \<open>Example runs\<close>

text \<open>
  File systems and storage contents for the concrete runs below. \<open>in\<close> is the input path
  and \<open>out\<close> the output path.
\<close>

definition fs_with :: "string \<Rightarrow> path set \<Rightarrow> fs" where
  "fs_with content locked =
     \<lparr>file_at = [''in'' \<mapsto> content], unreadable = {}, unwritable = locked\<rparr>"

text \<open>The four lines of scenario 1 of the specification; the last line has no newline.\<close>

definition lines_5351 :: string where
  "lines_5351 = ''5:a'' @ [newline] @ ''3:b'' @ [newline] @ ''5:c'' @ [newline] @ ''1:d''"

text \<open>Three records with the same key, as the program itself writes them.\<close>

definition lines_444 :: string where
  "lines_444 = ''4:a'' @ [newline] @ ''4:b'' @ [newline] @ ''4:c'' @ [newline]"

text \<open>Storage that holds zeros, and storage whose second entry holds a smaller number
  than its first.\<close>

definition uninit_zero :: "nat \<Rightarrow> KeyValuePair" where
  "uninit_zero i = \<lparr>key = 0, val = [], originalIndex = 0\<rparr>"

definition uninit_desc :: "nat \<Rightarrow> KeyValuePair" where
  "uninit_desc i = \<lparr>key = 0, val = [], originalIndex = 1 - i\<rparr>"

text \<open>
  A sorted file of one more line than a batch holds: \<open>B\<close> lines \<open>4:a\<close> and then the
  line \<open>4:c\<close>, each with its newline.
\<close>

definition lines_over :: "nat \<Rightarrow> string" where
  "lines_over B = concat (replicate B (''4:a'' @ [newline])) @ ''4:c'' @ [newline]"

text \<open>
  The file system that holds the input file only, in which the paths of \<open>noread\<close> cannot be
  opened for reading and the paths of \<open>nowrite\<close> cannot be created.
\<close>

definition fs_locked :: "string \<Rightarrow> path set \<Rightarrow> path set \<Rightarrow> fs" where
  "fs_locked content noread nowrite =
     \<lparr>file_at = [''in'' \<mapsto> content], unreadable = noread, unwritable = nowrite\<rparr>"

section \<open>Properties of the record codec\<close>

subsection \<open>Decimal text\<close>

lemma digit_cases: "d < 10 \<Longrightarrow> d \<in> {0, 1, 2, 3, 4, 5, 6, 7, 8, 9::nat}"
  by auto

lemma digit_char_is_digit: "d < 10 \<Longrightarrow> is_digit (digit_char d)"
  using digit_cases [of d] by (auto simp: is_digit_def digit_char_def)

lemma digit_val_digit_char: "d < 10 \<Longrightarrow> digit_val (digit_char d) = d"
  using digit_cases [of d] by (auto simp: digit_val_def digit_char_def)

lemma digit_not_colon: "is_digit c \<Longrightarrow> c \<noteq> CHR '':''"
  by (auto simp: is_digit_def)

lemma digit_not_newline: "is_digit c \<Longrightarrow> c \<noteq> newline"
  by (auto simp: is_digit_def newline_def)

lemma to_string_digits: "\<forall>c \<in> set (to_string n). is_digit c"
proof (induction n rule: to_string.induct)
  case (1 n)
  show ?case
  proof (cases "n < 10")
    case True
    then show ?thesis by (subst to_string.simps) (simp add: digit_char_is_digit)
  next
    case False
    with 1 show ?thesis by (subst to_string.simps) (simp add: digit_char_is_digit)
  qed
qed

lemma to_string_not_Nil: "to_string n \<noteq> []"
  by (subst to_string.simps) simp

lemma dec_val_snoc: "dec_val (ds @ [c]) = 10 * dec_val ds + digit_val c"
  by (simp add: dec_val_def)

lemma dec_val_to_string: "dec_val (to_string n) = n"
proof (induction n rule: to_string.induct)
  case (1 n)
  show ?case
  proof (cases "n < 10")
    case True
    then show ?thesis by (subst to_string.simps) (simp add: dec_val_def digit_val_digit_char)
  next
    case False
    with 1 have "dec_val (to_string (n div 10)) = n div 10" by simp
    with False show ?thesis
      by (subst to_string.simps) (simp add: dec_val_snoc digit_val_digit_char)
  qed
qed

lemma to_string_inj: "to_string m = to_string n \<Longrightarrow> m = n"
  by (metis dec_val_to_string)

lemma takeWhile_digits_colon:
  "\<forall>c \<in> set ds. is_digit c \<Longrightarrow> takeWhile is_digit (ds @ CHR '':'' # v) = ds"
  by (simp add: takeWhile_append2 is_digit_def)

lemma from_chars_to_string: "from_chars (to_string (unat k)) v = (errc_ok, k)"
proof -
  have tw: "takeWhile is_digit (to_string (unat k)) = to_string (unat k)"
    using to_string_digits by (simp add: takeWhile_eq_all_conv)
  have le: "\<not> unat k > 2 ^ 64 - 1"
    using unsigned_less [of k, where ?'a = nat] by simp
  show ?thesis
    unfolding from_chars_def Let_def tw dec_val_to_string
    using le by (simp add: to_string_not_Nil)
qed

lemma parse_format_record:
  "parseKeyValue (format_record r) p = (True, p\<lparr>key := key r, val := val r\<rparr>)"
proof -
  let ?ds = "to_string (unat (key r))"
  have nc: "\<forall>c \<in> set ?ds. c \<noteq> CHR '':''"
    using to_string_digits digit_not_colon by blast
  have tw: "takeWhile (\<lambda>c. c \<noteq> CHR '':'') (?ds @ CHR '':'' # val r) = ?ds"
    using nc by (simp add: takeWhile_append2)
  show ?thesis
    by (simp add: parseKeyValue_def format_record_def tw from_chars_to_string)
qed

subsection \<open>Lines\<close>

lemma lines_of_no_newline_aux:
  "newline \<notin> set cur \<Longrightarrow> \<forall>l \<in> set (split_lines cur cs). newline \<notin> set l"
proof (induction cs arbitrary: cur)
  case Nil
  then show ?case by simp
next
  case (Cons c cs)
  show ?case
  proof (cases "c = newline")
    case True
    with Cons.IH [of "[]"] Cons.prems show ?thesis by simp
  next
    case False
    with Cons.IH [of "cur @ [c]"] Cons.prems show ?thesis by simp
  qed
qed

lemma lines_of_no_newline: "l \<in> set (lines_of content) \<Longrightarrow> newline \<notin> set l"
  using lines_of_no_newline_aux [of "[]" content] by (simp add: lines_of_def)

lemma split_lines_line:
  "newline \<notin> set l \<Longrightarrow> split_lines cur (l @ newline # rest) = (cur @ l) # split_lines [] rest"
  by (induction l arbitrary: cur) auto

lemma lines_of_line:
  "newline \<notin> set l \<Longrightarrow> lines_of (l @ newline # rest) = l # lines_of rest"
  by (simp add: lines_of_def split_lines_line)

lemma format_line_record: "format_line r = format_record r @ [newline]"
  by (simp add: format_line_def format_record_def)

lemma format_record_no_newline:
  "newline \<notin> set (val r) \<Longrightarrow> newline \<notin> set (format_record r)"
  using to_string_digits [of "unat (key r)"] digit_not_newline
  by (auto simp: format_record_def newline_def)

subsection \<open>What parseKeyValue rejects\<close>

lemma parse_no_colon: "CHR '':'' \<notin> set line \<Longrightarrow> parseKeyValue line p = (False, p)"
  by (simp add: parseKeyValue_def)

lemma from_chars_error_keeps: "fst (from_chars s v) \<noteq> errc_ok \<Longrightarrow> snd (from_chars s v) = v"
  by (auto simp: from_chars_def Let_def split: if_splits)

lemma parse_False_keeps: "fst (parseKeyValue line p) = False \<Longrightarrow> snd (parseKeyValue line p) = p"
  using from_chars_error_keeps [of "take (length (takeWhile (\<lambda>c. c \<noteq> CHR '':'') line)) line" "key p"]
  by (auto simp: parseKeyValue_def Let_def split: if_splits prod.splits)

lemma parse_no_leading_digit:
  "takeWhile is_digit line = [] \<Longrightarrow> parseKeyValue line p = (False, p)"
proof (cases "CHR '':'' \<in> set line")
  case False
  then show ?thesis by (simp add: parse_no_colon)
next
  case True
  assume a: "takeWhile is_digit line = []"
  let ?n = "length (takeWhile (\<lambda>c. c \<noteq> CHR '':'') line)"
  have "takeWhile is_digit (take ?n line) = []"
    using a by (cases line) (auto split: if_splits)
  then have "from_chars (take ?n line) (key p) = (invalid_argument, key p)"
    by (simp add: from_chars_def)
  with True show ?thesis by (simp add: parseKeyValue_def)
qed

text \<open>
  Claim C5 says that \<open>parseKeyValue\<close> rejects a line whose text before the first colon is
  not a decimal integer in its entirety, such as \<open>12abc:v\<close>. The two lemmas above give the
  part that holds: a line without a colon and a line that does not start with a digit are
  rejected. The part about trailing text fails: \<open>std::from_chars\<close> stops at the first
  character that is not a digit and reports success, and the program never compares the
  returned pointer with the end of the key. The line \<open>12abc:v\<close> is accepted with key 12 and
  value \<open>v\<close>.
\<close>

theorem parse_accepts_trailing_garbage:
  "parseKeyValue ''12abc:v'' \<lparr>key = 0, val = [], originalIndex = 0\<rparr>
     = (True, \<lparr>key = 12, val = ''v'', originalIndex = 0\<rparr>)"
  by (simp add: parseKeyValue_def from_chars_def is_digit_def dec_val_def digit_val_def)

subsection \<open>Round trip\<close>

text \<open>
  Claim C7 says that parsing the line written for a record gives the record back with all
  its fields, \<open>originalIndex\<close> included. The written line does not hold \<open>originalIndex\<close> and
  \<open>parseKeyValue\<close> does not write that field: the record with index 7, written and parsed
  into a pair that holds index 0, comes back with index 0.
\<close>

theorem roundtrip_loses_originalIndex:
  "snd (parseKeyValue (format_record \<lparr>key = 5, val = ''a'', originalIndex = 7\<rparr>)
          \<lparr>key = 0, val = [], originalIndex = 0\<rparr>)
     \<noteq> \<lparr>key = 5, val = ''a'', originalIndex = 7\<rparr>"
  by (simp add: parse_format_record)

text \<open>
  Claim C7 as amended: for every record whose value holds no newline, the text written for
  the record is read back by \<open>std::getline\<close> as one line, and parsing that line succeeds and
  sets \<open>key\<close> and \<open>value\<close> to those of the record; \<open>originalIndex\<close> of the receiving pair is
  left as it was.
\<close>

theorem roundtrip_key_value:
  assumes "newline \<notin> set (val r)"
  shows "map (\<lambda>line. parseKeyValue line p) (lines_of (format_line r))
           = [(True, p\<lparr>key := key r, val := val r\<rparr>)]"
proof -
  have "lines_of (format_line r) = [format_record r]"
    using lines_of_line [OF format_record_no_newline [OF assms], of "[]"]
    by (simp add: format_line_record lines_of_def)
  then show ?thesis by (simp add: parse_format_record)
qed

theorem roundtrip_key_value_witness:
  "newline \<notin> set ''a:b'' \<and>
   map (\<lambda>line. parseKeyValue line \<lparr>key = 0, val = [], originalIndex = 3\<rparr>)
       (lines_of (format_line \<lparr>key = 5, val = ''a:b'', originalIndex = 7\<rparr>))
     = [(True, \<lparr>key = 5, val = ''a:b'', originalIndex = 3\<rparr>)]"
  using roundtrip_key_value [of "\<lparr>key = 5, val = ''a:b'', originalIndex = 7\<rparr>"
                                "\<lparr>key = 0, val = [], originalIndex = 3\<rparr>"]
  by (simp add: newline_def)

subsection \<open>Keys beyond 64 bits\<close>

text \<open>
  Claim C10: a line whose key is a decimal integer greater than \<open>2 ^ 64 - 1\<close> is rejected by
  \<open>parseKeyValue\<close>, which leaves the pair as it was (the key is not wrapped or cut), and the
  reading loop of \<open>sortBatch\<close> goes on to the next line without adding a record.
\<close>

theorem parse_rejects_overflow:
  assumes "\<forall>c \<in> set ds. is_digit c" and "dec_val ds > 2 ^ 64 - 1" and "length batch < B"
  shows "parseKeyValue (ds @ CHR '':'' # v) p = (False, p) \<and>
         readBatch B lp \<lparr>failbit = False, pending = (ds @ CHR '':'' # v) # rest\<rparr> batch li
           = readBatch B lp \<lparr>failbit = False, pending = rest\<rparr> batch (li + 1)"
proof -
  have nc: "\<forall>c \<in> set ds. c \<noteq> CHR '':''"
    using assms(1) digit_not_colon by blast
  have tw: "takeWhile (\<lambda>c. c \<noteq> CHR '':'') (ds @ CHR '':'' # v) = ds"
    using nc by (simp add: takeWhile_append2)
  have td: "takeWhile is_digit ds = ds"
    using assms(1) by (simp add: takeWhile_eq_all_conv)
  have ne: "ds \<noteq> []"
    using assms(2) by (auto simp: dec_val_def)
  have fc: "from_chars ds k = (result_out_of_range, k)" for k
    unfolding from_chars_def Let_def td using ne assms(2) by simp
  have p: "parseKeyValue (ds @ CHR '':'' # v) q = (False, q)" for q
    by (simp add: parseKeyValue_def tw fc)
  have "readBatch B lp \<lparr>failbit = False, pending = (ds @ CHR '':'' # v) # rest\<rparr> batch li
           = readBatch B lp \<lparr>failbit = False, pending = rest\<rparr> batch (li + 1)"
    using assms(3) by (subst readBatch.simps) (simp add: getline_def p)
  with p show ?thesis by simp
qed

theorem parse_rejects_overflow_witness:
  "dec_val ''18446744073709551616'' > 2 ^ 64 - 1 \<and>
   length ([] :: KeyValuePair list) < BATCH_SIZE \<and>
   parseKeyValue ''18446744073709551616:v'' \<lparr>key = 0, val = [], originalIndex = 0\<rparr>
     = (False, \<lparr>key = 0, val = [], originalIndex = 0\<rparr>) \<and>
   readBatch BATCH_SIZE 0 \<lparr>failbit = False, pending = [''18446744073709551616:v'', ''1:q'']\<rparr> [] 0
     = readBatch BATCH_SIZE 0 \<lparr>failbit = False, pending = [''1:q'']\<rparr> [] (0 + 1)"
  using parse_rejects_overflow [of "''18446744073709551616''" "[]" BATCH_SIZE "''v''"
          "\<lparr>key = 0, val = [], originalIndex = 0\<rparr>" 0 "[''1:q'']" 0]
  by (simp add: is_digit_def dec_val_def digit_val_def BATCH_SIZE_def)

section \<open>Properties of the batch phase\<close>

subsection \<open>The parser in terms of the observations\<close>

lemma from_chars_indep:
  "from_chars s v = (fst (from_chars s 0), if fst (from_chars s 0) = errc_ok then snd (from_chars s 0) else v)"
  by (simp add: from_chars_def Let_def)

lemma parse_char:
  "parseKeyValue line p =
     (well_formed line,
      if well_formed line then p\<lparr>key := fst (kv_of line), val := snd (kv_of line)\<rparr> else p)"
proof (cases "CHR '':'' \<in> set line")
  case False
  then show ?thesis by (simp add: parseKeyValue_def well_formed_def)
next
  case True
  let ?n = "length (takeWhile (\<lambda>c. c \<noteq> CHR '':'') line)"
  obtain ec k where fc: "from_chars (take ?n line) 0 = (ec, k)"
    by (cases "from_chars (take ?n line) 0")
  have fcp: "from_chars (take ?n line) (key p) = (ec, if ec = errc_ok then k else key p)"
    using from_chars_indep [of "take ?n line" "key p"] fc by simp
  show ?thesis
    using True fc fcp
    by (simp add: parseKeyValue_def well_formed_def kv_of_def Let_def)
qed

subsection \<open>The reading loop\<close>

text \<open>
  The loop reads a prefix of the lines the stream can deliver, numbers every line of it,
  and stops when the batch is full or the stream is exhausted.
\<close>

lemma numbered_records_index:
  "map originalIndex (numbered_records idx ls)
     = map (\<lambda>i. idx + i) (filter (\<lambda>i. well_formed (ls ! i)) [0..<length ls])"
proof (induction ls arbitrary: idx)
  case Nil
  then show ?case by simp
next
  case (Cons l ls)
  have upt: "[0..<length (l # ls)] = 0 # map Suc [0..<length ls]"
    by (simp add: upt_conv_Cons map_Suc_upt del: upt_Suc)
  show ?case
    unfolding upt
    by (simp add: Cons.IH filter_map comp_def del: upt_Suc)
qed

lemma createTempFile_inj: "createTempFile out i = createTempFile out j \<Longrightarrow> i = j"
  by (simp add: createTempFile_def to_string_inj)

lemma createTempFile_neq_out: "createTempFile out i \<noteq> out"
  by (simp add: createTempFile_def)

lemma numbered_records_append:
  "numbered_records idx (xs @ ys)
     = numbered_records idx xs @ numbered_records (idx + length xs) ys"
  by (induction xs arbitrary: idx) auto

lemma readBatch_failed:
  "failbit inp \<Longrightarrow> readBatch B lp inp b li0 = (b, li0, inp)"
  by (subst readBatch.simps) (simp add: getline_def)

lemma readBatch_avail_aux:
  "readBatch B lp \<lparr>failbit = False, pending = ls\<rparr> b li0 = (batch, li, inp') \<Longrightarrow>
   \<exists>n. li = li0 + n \<and> n \<le> length ls \<and> avail inp' = drop n ls \<and>
       batch = b @ numbered_records (lp + li0) (take n ls) \<and>
       (length batch < B \<longrightarrow> n = length ls)"
proof (induction ls arbitrary: b li0)
  case Nil
  then show ?case
    by (subst (asm) readBatch.simps) (auto simp: getline_def avail_def split: if_splits)
next
  case (Cons l ls)
  show ?case
  proof (cases "length b < B")
    case False
    with Cons.prems have "batch = b" "li = li0" "inp' = \<lparr>failbit = False, pending = l # ls\<rparr>"
      by (subst (asm) readBatch.simps, simp)+
    with False show ?thesis by (intro exI [of _ 0]) (simp add: avail_def)
  next
    case True
    define p where "p = \<lparr>key = fst (kv_of l), val = snd (kv_of l), originalIndex = lp + li0\<rparr>"
    define b' where "b' = (if well_formed l then b @ [p] else b)"
    from Cons.prems True
    have "readBatch B lp \<lparr>failbit = False, pending = ls\<rparr> b' (li0 + 1) = (batch, li, inp')"
      by (cases "well_formed l"; subst (asm) readBatch.simps;
          simp add: getline_def parse_char b'_def p_def)
    from Cons.IH [OF this] obtain n where n:
      "li = li0 + 1 + n" "n \<le> length ls" "avail inp' = drop n ls"
      "batch = b' @ numbered_records (lp + (li0 + 1)) (take n ls)"
      "length batch < B \<longrightarrow> n = length ls"
      by blast
    have 1: "li = li0 + Suc n" using n(1) by simp
    have 2: "Suc n \<le> length (l # ls)" using n(2) by simp
    have 3: "avail inp' = drop (Suc n) (l # ls)" using n(3) by simp
    have "lp + (li0 + 1) = lp + li0 + 1" by simp
    then have 4: "batch = b @ numbered_records (lp + li0) (take (Suc n) (l # ls))"
      using n(4) by (simp add: b'_def p_def)
    have 5: "length batch < B \<longrightarrow> Suc n = length (l # ls)" using n(5) by simp
    from 1 2 3 4 5 show ?thesis by blast
  qed
qed

lemma readBatch_avail:
  assumes "readBatch B lp inp b li0 = (batch, li, inp')"
  shows "\<exists>n. li = li0 + n \<and> n \<le> length (avail inp) \<and> avail inp' = drop n (avail inp) \<and>
             batch = b @ numbered_records (lp + li0) (take n (avail inp)) \<and>
             (length batch < B \<longrightarrow> n = length (avail inp))"
proof (cases "failbit inp")
  case True
  with assms readBatch_failed [OF True, of B lp b li0] show ?thesis
    by (intro exI [of _ 0]) (auto simp: avail_def)
next
  case False
  then have "inp = \<lparr>failbit = False, pending = pending inp\<rparr>" by simp
  with assms have "readBatch B lp \<lparr>failbit = False, pending = pending inp\<rparr> b li0 = (batch, li, inp')"
    by simp
  from readBatch_avail_aux [OF this] False show ?thesis by (simp add: avail_def)
qed

lemma kv_of_val_drop: "snd (kv_of line) = [] \<or> (\<exists>n. snd (kv_of line) = drop n line)"
proof (cases "CHR '':'' \<in> set line")
  case False
  then show ?thesis by (simp add: kv_of_def parseKeyValue_def)
next
  case True
  let ?n = "length (takeWhile (\<lambda>c. c \<noteq> CHR '':'') line)"
  obtain ec k where fc: "from_chars (take ?n line) 0 = (ec, k)"
    by (cases "from_chars (take ?n line) 0")
  show ?thesis
  proof (cases "ec = errc_ok")
    case False
    with True fc show ?thesis by (simp add: kv_of_def parseKeyValue_def)
  next
    case ok: True
    show ?thesis
    proof (cases "?n + 1 < length line")
      case True
      with \<open>CHR '':'' \<in> set line\<close> fc ok have "snd (kv_of line) = drop (?n + 1) line"
        by (simp add: kv_of_def parseKeyValue_def)
      then show ?thesis by blast
    next
      case False
      with \<open>CHR '':'' \<in> set line\<close> fc ok have "snd (kv_of line) = []"
        by (simp add: kv_of_def parseKeyValue_def)
      then show ?thesis by blast
    qed
  qed
qed

lemma kv_of_val_subset: "set (snd (kv_of line)) \<subseteq> set line"
  using kv_of_val_drop [of line] by (auto dest: in_set_dropD)

lemma numbered_records_val:
  "r \<in> set (numbered_records idx ls) \<Longrightarrow> \<exists>l \<in> set ls. set (val r) \<subseteq> set l"
proof (induction ls arbitrary: idx)
  case Nil
  then show ?case by simp
next
  case (Cons l ls)
  then show ?case using kv_of_val_subset [of l] by (auto split: if_splits)
qed

lemma numbered_records_kv:
  "map (\<lambda>r. (key r, val r)) (numbered_records idx ls) = kv_of_lines ls"
  by (induction ls arbitrary: idx) (auto simp: kv_of_lines_def)

subsection \<open>sortBatch and the loop around it\<close>

text \<open>
  The batch phase leaves one run file for each batch it wrote, holding the batch in key
  order; the batches are consecutive pieces of the numbered input. It stops at the first
  batch that is empty or whose run file cannot be created.
\<close>

lemma sortBatch_True:
  assumes "sortBatch B out s inp n lp = (True, s', inp', lp')"
  shows "\<exists>m batch. batch \<noteq> [] \<and> m \<le> length (avail inp) \<and>
           batch = numbered_records lp (take m (avail inp)) \<and>
           avail inp' = drop m (avail inp) \<and> lp' = lp + m \<and>
           createTempFile out n \<notin> unwritable s \<and>
           s' = s\<lparr>file_at := (file_at s)(createTempFile out n \<mapsto>
                               concat (map format_line (sort_key key batch)))\<rparr> \<and>
           (length batch < B \<longrightarrow> m = length (avail inp))"
proof -
  obtain batch li inp1 where rb: "readBatch B lp inp [] 0 = (batch, li, inp1)"
    by (cases "readBatch B lp inp [] 0") auto
  from readBatch_avail [OF rb] obtain m where m0:
    "li = 0 + m" "m \<le> length (avail inp)" "avail inp1 = drop m (avail inp)"
    "batch = [] @ numbered_records (lp + 0) (take m (avail inp))"
    "length batch < B \<longrightarrow> m = length (avail inp)"
    by blast
  have m: "li = m" "m \<le> length (avail inp)" "avail inp1 = drop m (avail inp)"
    "batch = numbered_records lp (take m (avail inp))"
    "length batch < B \<longrightarrow> m = length (avail inp)"
    using m0(1) apply simp
    using m0(2) apply simp
    using m0(3) apply simp
    using m0(4) apply simp
    using m0(5) apply (simp only:)
    done
  from assms rb have ne: "batch \<noteq> []" and w: "createTempFile out n \<notin> unwritable s"
    and r: "inp' = inp1" "lp' = lp + li"
      "s' = s\<lparr>file_at := (file_at s)(createTempFile out n \<mapsto>
                               concat (map format_line (sort_key key batch)))\<rparr>"
    by (auto simp: sortBatch_def Let_def open_ofstream_def write_file_def split: if_splits)
  from ne w r m show ?thesis by blast
qed

lemma sortBatch_False:
  assumes "sortBatch B out s inp n lp = (False, s', inp', lp')"
  shows "s' = s \<and> (0 < B \<longrightarrow> createTempFile out n \<notin> unwritable s \<longrightarrow>
                     kv_of_lines (avail inp) = [])"
proof -
  obtain batch li inp1 where rb: "readBatch B lp inp [] 0 = (batch, li, inp1)"
    by (cases "readBatch B lp inp [] 0") auto
  from readBatch_avail [OF rb] obtain m where m0:
    "batch = [] @ numbered_records (lp + 0) (take m (avail inp))"
    "length batch < B \<longrightarrow> m = length (avail inp)"
    by blast
  then have m: "batch = numbered_records lp (take m (avail inp))"
    "length batch < B \<longrightarrow> m = length (avail inp)"
    by simp_all
  from assms rb have s: "s' = s"
    and e: "createTempFile out n \<notin> unwritable s \<longrightarrow> batch = []"
    by (auto simp: sortBatch_def Let_def open_ofstream_def write_file_def split: if_splits)
  have "kv_of_lines (avail inp) = []" if "0 < B" "createTempFile out n \<notin> unwritable s"
  proof -
    from that e have b: "batch = []" by simp
    with that m(2) have "m = length (avail inp)" by simp
    with m(1) b have "numbered_records lp (avail inp) = []" by simp
    then show ?thesis using numbered_records_kv [of lp "avail inp"] by simp
  qed
  with s show ?thesis by blast
qed

lemma sortLoop_runs:
  "sortLoop B out s inp n lp = (s', n') \<Longrightarrow>
   \<exists>batches m.
      n' = n + length batches \<and> [] \<notin> set batches \<and>
      m \<le> length (avail inp) \<and>
      concat batches = numbered_records lp (take m (avail inp)) \<and>
      unreadable s' = unreadable s \<and> unwritable s' = unwritable s \<and>
      (\<forall>i < length batches.
         file_at s' (createTempFile out (n + i))
           = Some (concat (map format_line (sort_key key (batches ! i))))) \<and>
      (\<forall>p. (\<forall>i < length batches. p \<noteq> createTempFile out (n + i)) \<longrightarrow>
           file_at s' p = file_at s p) \<and>
      (0 < B \<longrightarrow> createTempFile out n' \<notin> unwritable s \<longrightarrow>
         kv_of_lines (drop m (avail inp)) = []) \<and>
      (\<forall>i. Suc i < length batches \<longrightarrow> B \<le> length (batches ! i))"
proof (induction B out s inp n lp rule: sortLoop.induct)
  case (1 B out s inp n lp)
  obtain ok s1 inp1 lp1 where sb: "sortBatch B out s inp n lp = (ok, s1, inp1, lp1)"
    by (cases "sortBatch B out s inp n lp") auto
  show ?case
  proof (cases ok)
    case False
    with sb "1.prems" have e: "s' = s1" "n' = n"
      by (subst (asm) sortLoop.simps, simp)+
    from sb False have "sortBatch B out s inp n lp = (False, s1, inp1, lp1)" by simp
    from sortBatch_False [OF this] have f: "s1 = s"
      "0 < B \<longrightarrow> createTempFile out n \<notin> unwritable s \<longrightarrow> kv_of_lines (avail inp) = []"
      by auto
    show ?thesis
      by (rule exI [of _ "[]"], rule exI [of _ 0]) (use e f in simp)
  next
    case True
    with sb "1.prems" have rec: "sortLoop B out s1 inp1 (n + 1) lp1 = (s', n')"
      by (subst (asm) sortLoop.simps) simp
    from sb True have sbT: "sortBatch B out s inp n lp = (True, s1, inp1, lp1)" by simp
    from sortBatch_True [OF sbT] obtain m1 b1 where b1:
      "b1 \<noteq> []" "m1 \<le> length (avail inp)"
      "b1 = numbered_records lp (take m1 (avail inp))"
      "avail inp1 = drop m1 (avail inp)" "lp1 = lp + m1"
      "createTempFile out n \<notin> unwritable s"
      "s1 = s\<lparr>file_at := (file_at s)(createTempFile out n \<mapsto>
                               concat (map format_line (sort_key key b1)))\<rparr>"
      "length b1 < B \<longrightarrow> m1 = length (avail inp)"
      by blast
    from "1.IH" [OF sbT [symmetric] refl refl refl rec]
    obtain bs m2 where ih:
      "n' = n + 1 + length bs" "[] \<notin> set bs"
      "m2 \<le> length (avail inp1)"
      "concat bs = numbered_records lp1 (take m2 (avail inp1))"
      "unreadable s' = unreadable s1" "unwritable s' = unwritable s1"
      "\<forall>i < length bs. file_at s' (createTempFile out (n + 1 + i))
           = Some (concat (map format_line (sort_key key (bs ! i))))"
      "\<forall>p. (\<forall>i < length bs. p \<noteq> createTempFile out (n + 1 + i)) \<longrightarrow>
           file_at s' p = file_at s1 p"
      "0 < B \<longrightarrow> createTempFile out n' \<notin> unwritable s1 \<longrightarrow>
         kv_of_lines (drop m2 (avail inp1)) = []"
      "\<forall>i. Suc i < length bs \<longrightarrow> B \<le> length (bs ! i)"
      by blast
    let ?bs = "b1 # bs" and ?m = "m1 + m2"
    have c1: "n' = n + length ?bs" using ih(1) by simp
    have c2: "[] \<notin> set ?bs" using ih(2) b1(1) by auto
    have c3: "?m \<le> length (avail inp)" using ih(3) b1(2,4) by simp
    have "take ?m (avail inp) = take m1 (avail inp) @ take m2 (drop m1 (avail inp))"
      by (simp add: take_add)
    moreover have "length (take m1 (avail inp)) = m1" using b1(2) by simp
    ultimately have c4: "concat ?bs = numbered_records lp (take ?m (avail inp))"
      using ih(4) b1(3,4,5) by (simp add: numbered_records_append)
    have c5: "unreadable s' = unreadable s" "unwritable s' = unwritable s"
      using ih(5,6) b1(7) by simp_all
    have "\<forall>j < length bs. createTempFile out n \<noteq> createTempFile out (n + 1 + j)"
      using createTempFile_inj [of out n] by fastforce
    with ih(8) have "file_at s' (createTempFile out n) = file_at s1 (createTempFile out n)"
      by blast
    then have f0: "file_at s' (createTempFile out n)
                     = Some (concat (map format_line (sort_key key b1)))"
      using b1(7) by simp
    have c6: "\<forall>i < length ?bs. file_at s' (createTempFile out (n + i))
           = Some (concat (map format_line (sort_key key (?bs ! i))))"
    proof (intro allI impI)
      fix i assume "i < length ?bs"
      then show "file_at s' (createTempFile out (n + i))
           = Some (concat (map format_line (sort_key key (?bs ! i))))"
        using f0 ih(7) by (cases i) auto
    qed
    have c7: "\<forall>p. (\<forall>i < length ?bs. p \<noteq> createTempFile out (n + i)) \<longrightarrow>
           file_at s' p = file_at s p"
    proof (intro allI impI)
      fix p assume a: "\<forall>i < length ?bs. p \<noteq> createTempFile out (n + i)"
      then have "p \<noteq> createTempFile out n" by force
      moreover have "\<forall>i < length bs. p \<noteq> createTempFile out (n + 1 + i)"
      proof (intro allI impI)
        fix i assume "i < length bs"
        then have "Suc i < length ?bs" by simp
        with a have "p \<noteq> createTempFile out (n + Suc i)" by blast
        then show "p \<noteq> createTempFile out (n + 1 + i)" by simp
      qed
      ultimately show "file_at s' p = file_at s p" using ih(8) b1(7) by simp
    qed
    have c8: "0 < B \<longrightarrow> createTempFile out n' \<notin> unwritable s \<longrightarrow>
         kv_of_lines (drop ?m (avail inp)) = []"
      using ih(9) b1(4,7) by (simp add: add.commute)
    have c9: "\<forall>i. Suc i < length ?bs \<longrightarrow> B \<le> length (?bs ! i)"
    proof (intro allI impI)
      fix i assume i: "Suc i < length ?bs"
      show "B \<le> length (?bs ! i)"
      proof (cases i)
        case 0
        from i have "bs \<noteq> []" by auto
        have "\<not> length b1 < B"
        proof
          assume "length b1 < B"
          with b1(8) have "m1 = length (avail inp)" by simp
          with b1(4) have "avail inp1 = []" by simp
          with ih(4) have "concat bs = []" by simp
          with ih(2) \<open>bs \<noteq> []\<close> show False by (cases bs) auto
        qed
        with 0 show ?thesis by simp
      next
        case (Suc j)
        with i ih(10) show ?thesis by simp
      qed
    qed
    show ?thesis
      by (rule exI [of _ ?bs], rule exI [of _ ?m], intro conjI)
         (fact c1 c2 c3 c4 c5 c6 c7 c8 c9)+
  qed
qed

subsection \<open>The original index\<close>

text \<open>
  Claim C6 says that a malformed line does not take an \<open>originalIndex\<close>, so that the indices
  of the records are consecutive over the well-formed lines. The loop adds one to
  \<open>lineIndex\<close> for every line it reads (source line 75, outside the test of the parse): of
  the three lines \<open>2:p\<close>, \<open>notakey\<close>, \<open>1:q\<close> the records get the indices 0 and 2.
\<close>

theorem malformed_line_takes_index:
  "map originalIndex
     (fst (readBatch BATCH_SIZE 0 \<lparr>failbit = False, pending = [''2:p'', ''notakey'', ''1:q'']\<rparr> [] 0))
   = [0, 2]"
  by (simp add: readBatch.simps BATCH_SIZE_def getline_def parseKeyValue_def from_chars_def
        is_digit_def dec_val_def digit_val_def)

text \<open>
  Claim C6 as amended: a successful call of \<open>sortBatch\<close> that reads \<open>li\<close> lines gives the
  record of the line at position \<open>i\<close> the index \<open>linesProcessed + i\<close>, the position counted
  over all lines read, malformed ones included, writes these records to its run file and
  moves \<open>linesProcessed\<close> on by \<open>li\<close>. The call that follows it reads on from the stream
  and the counter as this call left them, so that the record of the line at position \<open>j\<close>
  of the stream gets the index \<open>linesProcessed + j\<close> in whichever call it is read: the
  indices of the records go up strictly in input order, and a malformed line between two
  well-formed lines leaves a gap.
\<close>

theorem sortBatch_numbers_every_line:
  assumes "sortBatch B out s inp n lp = (True, s', inp', lp')"
    and "readBatch B lp inp [] 0 = (batch, li, inp1)"
    and "readBatch B lp' inp' [] 0 = (batch', li', inp2)"
  shows "li \<le> length (avail inp) \<and> avail inp' = drop li (avail inp) \<and> lp' = lp + li \<and>
         map originalIndex batch
           = map (\<lambda>i. lp + i) (filter (\<lambda>i. well_formed (avail inp ! i)) [0..<li]) \<and>
         file_at s' (createTempFile out n)
           = Some (concat (map format_line (sort_key key batch))) \<and>
         li + li' \<le> length (avail inp) \<and>
         map originalIndex (batch @ batch')
           = map (\<lambda>i. lp + i) (filter (\<lambda>i. well_formed (avail inp ! i)) [0..<li + li']) \<and>
         sorted_wrt (<) (map originalIndex (batch @ batch'))"
proof -
  let ?ls = "avail inp"
  from readBatch_avail [OF assms(2)] obtain m where m:
    "li = 0 + m" "m \<le> length ?ls" "avail inp1 = drop m ?ls"
    "batch = [] @ numbered_records (lp + 0) (take m ?ls)"
    by blast
  from m(1) have lm: "m = li" by simp
  have a: "li \<le> length ?ls" "avail inp1 = drop li ?ls"
    "batch = numbered_records lp (take li ?ls)"
    using m(2) lm apply simp
    using m(3) lm apply simp
    using m(4) lm apply simp
    done
  from assms(1,2) have r: "inp' = inp1" "lp' = lp + li"
    "s' = s\<lparr>file_at := (file_at s)(createTempFile out n \<mapsto>
                               concat (map format_line (sort_key key batch)))\<rparr>"
    by (auto simp: sortBatch_def Let_def open_ofstream_def write_file_def split: if_splits)
  from readBatch_avail [OF assms(3)] obtain m' where m':
    "li' = 0 + m'" "m' \<le> length (avail inp')"
    "batch' = [] @ numbered_records (lp' + 0) (take m' (avail inp'))"
    by blast
  from m'(1) have lm': "m' = li'" by simp
  have b: "li' \<le> length (avail inp')"
    "batch' = numbered_records lp' (take li' (avail inp'))"
    using m'(2) lm' apply simp
    using m'(3) lm' apply simp
    done
  from a(1,2) b(1) r(1) have l: "li + li' \<le> length ?ls" by simp
  have t: "take (li + li') ?ls = take li ?ls @ take li' (drop li ?ls)"
    by (simp add: take_add)
  have "batch @ batch' = numbered_records lp (take (li + li') ?ls)"
    using a b r l by (simp add: t numbered_records_append)
  then have "map originalIndex (batch @ batch')
      = map (\<lambda>i. lp + i) (filter (\<lambda>i. well_formed (take (li + li') ?ls ! i)) [0..<li + li'])"
    using l by (simp only: numbered_records_index) simp
  also have "filter (\<lambda>i. well_formed (take (li + li') ?ls ! i)) [0..<li + li']
               = filter (\<lambda>i. well_formed (?ls ! i)) [0..<li + li']"
    by (rule filter_cong) auto
  finally have both: "map originalIndex (batch @ batch')
      = map (\<lambda>i. lp + i) (filter (\<lambda>i. well_formed (?ls ! i)) [0..<li + li'])" .
  have "map originalIndex batch
          = map (\<lambda>i. lp + i) (filter (\<lambda>i. well_formed (take li ?ls ! i)) [0..<li])"
    using a(1) by (simp add: a(3) numbered_records_index)
  also have "filter (\<lambda>i. well_formed (take li ?ls ! i)) [0..<li]
               = filter (\<lambda>i. well_formed (?ls ! i)) [0..<li]"
    by (rule filter_cong) auto
  finally have one: "map originalIndex batch
      = map (\<lambda>i. lp + i) (filter (\<lambda>i. well_formed (?ls ! i)) [0..<li])" .
  have "sorted_wrt (<) (filter (\<lambda>i. well_formed (?ls ! i)) [0..<li + li'])"
    by (rule sorted_wrt_filter) simp
  then have up: "sorted_wrt (<) (map originalIndex (batch @ batch'))"
    unfolding both by (simp add: sorted_wrt_map)
  from r(3) have f: "file_at s' (createTempFile out n)
      = Some (concat (map format_line (sort_key key batch)))"
    by simp
  from a(2) r(1) have d: "avail inp' = drop li (avail inp)" by simp
  show ?thesis
    by (intro conjI) (fact a(1) d r(2) one f l both up)+
qed

theorem sortBatch_numbers_every_line_witness:
  "(3 :: nat) \<le> length [''5:p'', ''notakey'', ''3:q'', ''junk'', ''1:r''] \<and>
   snd (snd (snd (sortBatch 2 ''out'' \<lparr>file_at = Map.empty, unreadable = {}, unwritable = {}\<rparr>
      \<lparr>failbit = False, pending = [''5:p'', ''notakey'', ''3:q'', ''junk'', ''1:r'']\<rparr> 0 10)))
     = 10 + 3 \<and>
   map originalIndex
     (fst (readBatch 2 10
             \<lparr>failbit = False, pending = [''5:p'', ''notakey'', ''3:q'', ''junk'', ''1:r'']\<rparr> [] 0) @
      fst (readBatch 2 13 \<lparr>failbit = False, pending = [''junk'', ''1:r'']\<rparr> [] 0))
     = [10, 12, 14] \<and>
   sorted_wrt (<) (map originalIndex
     (fst (readBatch 2 10
             \<lparr>failbit = False, pending = [''5:p'', ''notakey'', ''3:q'', ''junk'', ''1:r'']\<rparr> [] 0) @
      fst (readBatch 2 13 \<lparr>failbit = False, pending = [''junk'', ''1:r'']\<rparr> [] 0)))"
proof -
  let ?inp = "\<lparr>failbit = False, pending = [''5:p'', ''notakey'', ''3:q'', ''junk'', ''1:r'']\<rparr>"
  let ?inp' = "\<lparr>failbit = False, pending = [''junk'', ''1:r'']\<rparr>"
  let ?s = "\<lparr>file_at = Map.empty, unreadable = {}, unwritable = {}\<rparr>"
  have r1: "readBatch 2 10 ?inp [] 0
      = ([\<lparr>key = 5, val = ''p'', originalIndex = 10\<rparr>, \<lparr>key = 3, val = ''q'', originalIndex = 12\<rparr>],
         3, ?inp')"
    by (simp add: readBatch.simps getline_def parseKeyValue_def from_chars_def
        is_digit_def dec_val_def digit_val_def)
  have r2: "readBatch 2 13 ?inp' [] 0
      = ([\<lparr>key = 1, val = ''r'', originalIndex = 14\<rparr>], 2, \<lparr>failbit = True, pending = []\<rparr>)"
    by (simp add: readBatch.simps getline_def parseKeyValue_def from_chars_def
        is_digit_def dec_val_def digit_val_def)
  have sb: "sortBatch 2 ''out'' ?s ?inp 0 10
      = (True, \<lparr>file_at = [''out.temp0'' \<mapsto> ''3:q'' @ [newline] @ ''5:p'' @ [newline]],
                unreadable = {}, unwritable = {}\<rparr>, ?inp', 13)"
    by (simp add: sortBatch_def r1 Let_def open_ofstream_def write_file_def createTempFile_def
        to_string.simps digit_char_def format_line_def word_le_nat_alt word_less_nat_alt)
  from sortBatch_numbers_every_line [OF sb r1 r2]
  have "3 \<le> length (avail ?inp)" "(13 :: nat) = 10 + 3"
    "sorted_wrt (<) (map originalIndex
        ([\<lparr>key = 5, val = ''p'', originalIndex = 10\<rparr>, \<lparr>key = 3, val = ''q'', originalIndex = 12\<rparr>]
         @ [\<lparr>key = 1, val = ''r'', originalIndex = 14\<rparr>]))"
    by blast+
  then show ?thesis by (simp add: avail_def sb r1 r2)
qed

section \<open>Properties of the merge\<close>

subsection \<open>Reading the next record\<close>

text \<open>
  \<open>readNext\<close> moves the next record of the stream into the head slot and leaves
  \<open>originalIndex\<close> of the slot as it was.
\<close>

lemma format_line_kv: "format_line r = format_kv (key r, val r)"
  by (simp add: format_line_def format_kv_def)

lemma kv_of_lines_Cons:
  "kv_of_lines (l # ls) = (if well_formed l then kv_of l # kv_of_lines ls else kv_of_lines ls)"
  by (simp add: kv_of_lines_def)

lemma avail_getline:
  "getline f = (Some l, f') \<Longrightarrow> avail f = l # avail f' \<and> \<not> failbit f'"
  by (auto simp: getline_def avail_def split: if_splits list.splits)

lemma avail_getline_None:
  "getline f = (None, f') \<Longrightarrow> avail f = [] \<and> avail f' = [] \<and> failbit f'"
  by (auto simp: getline_def avail_def split: if_splits list.splits)

lemma readNext_spec:
  "rem_kv (readNext e) = kv_of_lines (avail (fstream e)) \<and>
   originalIndex (currentPair (readNext e)) = originalIndex (currentPair e) \<and>
   (\<not> hasNext (readNext e) \<longrightarrow> failbit (fstream (readNext e))) \<and>
   (hasNext (readNext e) \<longrightarrow> \<not> failbit (fstream (readNext e)))"
proof (induction e rule: readNext.induct)
  case (1 e)
  obtain l f' where g: "getline (fstream e) = (l, f')"
    by (cases "getline (fstream e)")
  show ?case
  proof (cases l)
    case None
    with g have r: "readNext e = e\<lparr>fstream := f', hasNext := False\<rparr>"
      by (subst readNext.simps) simp
    from avail_getline_None [OF g [unfolded None]] show ?thesis
      by (simp add: r rem_kv_def kv_of_lines_def)
  next
    case (Some line)
    from avail_getline [OF g [unfolded Some]]
    have a: "avail (fstream e) = line # avail f'" and nf: "\<not> failbit f'" by auto
    show ?thesis
    proof (cases "well_formed line")
      case True
      with g Some have r: "readNext e = e\<lparr>fstream := f',
          currentPair := (currentPair e)\<lparr>key := fst (kv_of line), val := snd (kv_of line)\<rparr>,
          hasNext := True\<rparr>"
        by (subst readNext.simps) (simp add: parse_char)
      show ?thesis
        using True nf by (simp add: r a rem_kv_def head_kv_def kv_of_lines_Cons)
    next
      case False
      with g Some have r: "readNext e = readNext (e\<lparr>fstream := f', currentPair := currentPair e\<rparr>)"
        by (subst readNext.simps) (simp add: parse_char)
      have p: "parseKeyValue line (currentPair e) = (False, currentPair e)"
        using False by (simp add: parse_char)
      from "1.IH" [OF g [symmetric] Some p [symmetric]] False
      show ?thesis by (simp add: r a kv_of_lines_Cons)
    qed
  qed
qed

lemma rem_kv_pop:
  "hasNext e \<Longrightarrow> rem_kv e = head_kv e # rem_kv (readNext e)"
  by (simp add: readNext_spec) (simp add: rem_kv_def)

subsection \<open>The selection\<close>

text \<open>
  The scan finds an entry with a pair if there is one; no entry with a pair is less than
  the selected one, and the selected one is less than every such entry before it.
\<close>

lemma entry_less_irrefl: "\<not> entry_less a a"
  by (simp add: entry_less_def)

lemma entry_less_trans: "entry_less a b \<Longrightarrow> entry_less b c \<Longrightarrow> entry_less a c"
  by (auto simp: entry_less_def)

lemma entry_less_le_trans: "entry_less a b \<Longrightarrow> \<not> entry_less c b \<Longrightarrow> entry_less a c"
  by (auto simp: entry_less_def)

lemma entry_less_key: "\<not> entry_less a b \<Longrightarrow> key (currentPair b) \<le> key (currentPair a)"
  by (auto simp: entry_less_def)

lemma selectStep_entry_less:
  "selectStep files (m, found) i =
     (if hasNext (files ! i) \<and> (\<not> found \<or> entry_less (files ! i) (files ! m))
      then (i, True) else (m, found))"
  by (simp add: selectStep_def entry_less_def)

lemma selectMin_scan:
  "foldl (selectStep files) (0, False) [0..<n] = (m, found) \<Longrightarrow>
     (found \<longleftrightarrow> (\<exists>j<n. hasNext (files ! j))) \<and>
     (found \<longrightarrow> m < n \<and> hasNext (files ! m) \<and>
        (\<forall>j<n. hasNext (files ! j) \<longrightarrow>
            \<not> entry_less (files ! j) (files ! m) \<and>
            (j < m \<longrightarrow> entry_less (files ! m) (files ! j))))"
proof (induction n arbitrary: m found)
  case 0
  then show ?case by simp
next
  case (Suc n)
  obtain m0 f0 where p: "foldl (selectStep files) (0, False) [0..<n] = (m0, f0)"
    by (cases "foldl (selectStep files) (0, False) [0..<n]")
  note ih = Suc.IH [OF p]
  from Suc.prems p have st: "selectStep files (m0, f0) n = (m, found)" by simp
  show ?case
  proof (cases "hasNext (files ! n) \<and> (\<not> f0 \<or> entry_less (files ! n) (files ! m0))")
    case True
    with st have e: "m = n" "found"
      by (auto simp: selectStep_entry_less split: if_splits)
    have "\<not> entry_less (files ! j) (files ! n) \<and> (j < n \<longrightarrow> entry_less (files ! n) (files ! j))"
      if j: "j < Suc n" "hasNext (files ! j)" for j
    proof (cases "j = n")
      case True
      then show ?thesis by (simp add: entry_less_irrefl)
    next
      case False
      with j have jn: "j < n" by simp
      with j ih have f0: "f0" by blast
      with True have l: "entry_less (files ! n) (files ! m0)" by simp
      from ih f0 jn j have nl: "\<not> entry_less (files ! j) (files ! m0)" by blast
      from entry_less_le_trans [OF l nl] have "entry_less (files ! n) (files ! j)" .
      moreover have "\<not> entry_less (files ! j) (files ! n)"
        using entry_less_trans [OF _ l] nl by blast
      ultimately show ?thesis by simp
    qed
    with e True show ?thesis by auto
  next
    case False
    with st have e: "m = m0" "found = f0"
      by (auto simp: selectStep_entry_less split: if_splits)
    show ?thesis
    proof (cases "hasNext (files ! n)")
      case hn: False
      have "(\<exists>j<Suc n. hasNext (files ! j)) \<longleftrightarrow> (\<exists>j<n. hasNext (files ! j))"
        using hn less_Suc_eq by auto
      moreover have "\<And>j. j < Suc n \<Longrightarrow> hasNext (files ! j) \<Longrightarrow> j < n"
        using hn less_Suc_eq by auto
      ultimately show ?thesis using ih e by (auto simp: less_Suc_eq)
    next
      case hn: True
      with False have f0: "f0" and nl: "\<not> entry_less (files ! n) (files ! m0)" by auto
      from ih f0 have m0: "m0 < n" by blast
      have "\<not> entry_less (files ! j) (files ! m0) \<and>
            (j < m0 \<longrightarrow> entry_less (files ! m0) (files ! j))"
        if j: "j < Suc n" "hasNext (files ! j)" for j
      proof (cases "j = n")
        case True
        with nl m0 show ?thesis by simp
      next
        case False
        with j have "j < n" by simp
        with ih f0 j show ?thesis by blast
      qed
      with e f0 m0 ih hn show ?thesis by (auto simp: less_Suc_eq)
    qed
  qed
qed

lemma selectMin_spec:
  assumes "selectMin files = (m, found)"
  shows "(found \<longleftrightarrow> (\<exists>j<length files. hasNext (files ! j))) \<and>
     (found \<longrightarrow> m < length files \<and> hasNext (files ! m) \<and>
        (\<forall>j<length files. hasNext (files ! j) \<longrightarrow>
            \<not> entry_less (files ! j) (files ! m) \<and>
            (j < m \<longrightarrow> entry_less (files ! m) (files ! j))))"
  using selectMin_scan [of files "length files" m found] assms
  by (simp add: selectMin_def)

subsection \<open>The merge loop\<close>

text \<open>
  The loop writes the records of all entries in key order. When the \<open>originalIndex\<close>
  fields of the entries do not decrease along the vector, records with equal keys come out
  in the order of the entries.
\<close>

lemma head_key: "fst (head_kv e) = key (currentPair e)"
  by (simp add: head_kv_def)

lemma entry_ok_min:
  assumes "entry_ok e" and "q \<in> set (rem_kv e)"
  shows "hasNext e \<and> key (currentPair e) \<le> fst q"
proof -
  from assms have h: "hasNext e" by (auto simp: entry_ok_def)
  then have "rem_kv e = head_kv e # kv_of_lines (avail (fstream e))"
    by (simp add: rem_kv_def)
  with assms show ?thesis using h by (auto simp: entry_ok_def head_key)
qed

lemma entry_ok_readNext:
  assumes "entry_ok e" and "hasNext e"
  shows "entry_ok (readNext e)"
proof -
  from rem_kv_pop [OF assms(2)] assms(1) have s: "sorted (map fst (rem_kv (readNext e)))"
    by (simp add: entry_ok_def)
  have "rem_kv (readNext e) = []" if "\<not> hasNext (readNext e)"
  proof -
    from that readNext_spec [of e] have "failbit (fstream (readNext e))" by simp
    with that show ?thesis by (simp add: rem_kv_def avail_def kv_of_lines_def)
  qed
  with s show ?thesis by (auto simp: entry_ok_def)
qed

lemma mset_concat_update:
  "m < length xs \<Longrightarrow> f (xs ! m) = p # f y \<Longrightarrow>
   mset (concat (map f (xs[m := y]))) + {#p#} = mset (concat (map f xs))"
proof (induction xs arbitrary: m)
  case Nil
  then show ?case by simp
next
  case (Cons x xs)
  then show ?case by (cases m) auto
qed

lemma filter_concat_update:
  assumes m: "m < length xs" and pop: "f (xs ! m) = p # f y"
    and before: "\<And>j q. j < m \<Longrightarrow> q \<in> set (f (xs ! j)) \<Longrightarrow> fst q \<noteq> fst p"
  shows "filter (\<lambda>q. fst q = k) (concat (map f xs))
           = (if k = fst p then [p] else []) @
             filter (\<lambda>q. fst q = k) (concat (map f (xs[m := y])))"
proof -
  let ?F = "filter (\<lambda>q. fst q = k)"
  have x: "xs = take m xs @ xs ! m # drop (Suc m) xs"
    using m by (simp add: id_take_nth_drop [symmetric])
  have x': "xs[m := y] = take m xs @ y # drop (Suc m) xs"
    using m by (simp add: upd_conv_take_nth_drop)
  have c: "concat (map f xs)
             = concat (map f (take m xs)) @ (p # f y) @ concat (map f (drop (Suc m) xs))"
    by (subst x) (simp add: pop)
  have c': "concat (map f (xs[m := y]))
             = concat (map f (take m xs)) @ f y @ concat (map f (drop (Suc m) xs))"
    by (simp add: x')
  show ?thesis
  proof (cases "k = fst p")
    case False
    then show ?thesis by (auto simp: c c')
  next
    case True
    have "fst q \<noteq> fst p" if "q \<in> set (concat (map f (take m xs)))" for q
    proof -
      from that obtain z where z: "z \<in> set (take m xs)" "q \<in> set (f z)" by auto
      from z(1) obtain j where "j < length (take m xs)" "z = take m xs ! j"
        by (auto simp: in_set_conv_nth)
      with m have "j < m" "z = xs ! j" by simp_all
      with before z(2) show ?thesis by blast
    qed
    then have "?F (concat (map f (take m xs))) = []"
      using True by (auto simp: filter_empty_conv)
    with True show ?thesis by (simp add: c c')
  qed
qed

lemma slot_order_update:
  assumes "sorted (map (\<lambda>e. originalIndex (currentPair e)) files)"
    and "m < length files"
    and "originalIndex (currentPair e') = originalIndex (currentPair (files ! m))"
  shows "sorted (map (\<lambda>e. originalIndex (currentPair e)) (files[m := e']))"
proof -
  have "map (\<lambda>e. originalIndex (currentPair e)) (files[m := e'])
          = (map (\<lambda>e. originalIndex (currentPair e)) files)
              [m := originalIndex (currentPair (files ! m))]"
    using assms(3) by (simp add: map_update)
  also have "\<dots> = map (\<lambda>e. originalIndex (currentPair e)) files"
    using assms(2) by (metis list_update_id nth_map)
  finally show ?thesis using assms(1) by simp
qed

lemma mergeLoop_sorted:
  "\<forall>e \<in> set files. entry_ok e \<Longrightarrow>
   \<exists>ps. snd (mergeLoop files out) = out @ concat (map format_kv ps) \<and>
        sorted (map fst ps) \<and> mset ps = mset (concat (map rem_kv files)) \<and>
        (sorted (map (\<lambda>e. originalIndex (currentPair e)) files) \<longrightarrow>
           (\<forall>k. filter (\<lambda>q. fst q = k) ps
                  = filter (\<lambda>q. fst q = k) (concat (map rem_kv files))))"
proof (induction files out rule: mergeLoop.induct)
  case (1 files out)
  obtain m found where sm: "selectMin files = (m, found)"
    by (cases "selectMin files")
  note sp = selectMin_spec [OF sm]
  show ?case
  proof (cases found)
    case False
    with sm have r: "mergeLoop files out = (files, out)"
      by (subst mergeLoop.simps) simp
    have "rem_kv e = []" if "e \<in> set files" for e
    proof -
      from that obtain j where "j < length files" "e = files ! j"
        by (auto simp: in_set_conv_nth)
      with sp False have "\<not> hasNext e" by blast
      with "1.prems" that show ?thesis by (auto simp: entry_ok_def)
    qed
    then have "concat (map rem_kv files) = []" by simp
    with r show ?thesis by (intro exI [of _ "[]"]) simp
  next
    case True
    define e' where "e' = readNext (files ! m)"
    define files' where "files' = files[m := e']"
    define p where "p = head_kv (files ! m)"
    from sp True have m: "m < length files" and hm: "hasNext (files ! m)"
      and mn: "\<forall>j<length files. hasNext (files ! j) \<longrightarrow> \<not> entry_less (files ! j) (files ! m)"
      and fst_m: "\<forall>j<length files. hasNext (files ! j) \<longrightarrow> j < m \<longrightarrow>
                     entry_less (files ! m) (files ! j)"
      by blast+
    from sm True have r: "mergeLoop files out
        = mergeLoop files' (out @ format_line (currentPair (files ! m)))"
      by (subst mergeLoop.simps) (simp add: files'_def e'_def)
    have okm: "entry_ok (files ! m)" using "1.prems" m by simp
    have pop: "rem_kv (files ! m) = p # rem_kv e'"
      using rem_kv_pop [OF hm] by (simp add: p_def e'_def)
    have ok': "\<forall>e \<in> set files'. entry_ok e"
    proof
      fix e assume "e \<in> set files'"
      then have "e = e' \<or> e \<in> set files"
        unfolding files'_def using set_update_subset_insert [of files m e'] by auto
      then show "entry_ok e"
        using entry_ok_readNext [OF okm hm] "1.prems" by (auto simp: e'_def)
    qed
    from "1.IH" [OF sm [symmetric] _ ok' [unfolded files'_def e'_def]] True
    obtain ps' where ps':
      "snd (mergeLoop files' (out @ format_line (currentPair (files ! m))))
         = (out @ format_line (currentPair (files ! m))) @ concat (map format_kv ps')"
      "sorted (map fst ps')" "mset ps' = mset (concat (map rem_kv files'))"
      "sorted (map (\<lambda>e. originalIndex (currentPair e)) files') \<longrightarrow>
           (\<forall>k. filter (\<lambda>q. fst q = k) ps'
                  = filter (\<lambda>q. fst q = k) (concat (map rem_kv files')))"
      unfolding files'_def e'_def by auto
    have fl: "format_line (currentPair (files ! m)) = format_kv p"
      by (simp add: format_line_kv p_def head_kv_def)
    have out: "snd (mergeLoop files out) = out @ concat (map format_kv (p # ps'))"
      using r ps'(1) fl by simp
    have ms: "mset (p # ps') = mset (concat (map rem_kv files))"
      using mset_concat_update [of m files rem_kv p e', OF m pop] ps'(3)
      by (simp add: files'_def)
    have lb: "fst p \<le> fst q" if "q \<in> set ps'" for q
    proof -
      from that ps'(3) have "q \<in> set (concat (map rem_kv files'))"
        by (metis set_mset_mset)
      then obtain e where e: "e \<in> set files'" "q \<in> set (rem_kv e)" by auto
      from e(1) have "e = e' \<or> e \<in> set files"
        unfolding files'_def using set_update_subset_insert [of files m e'] by auto
      then show ?thesis
      proof
        assume "e = e'"
        with e(2) pop have "q \<in> set (rem_kv (files ! m))" by simp
        moreover from okm pop have "\<forall>x \<in> set (rem_kv e'). fst p \<le> fst x"
          by (auto simp: entry_ok_def)
        ultimately show ?thesis using e(2) \<open>e = e'\<close> by blast
      next
        assume "e \<in> set files"
        then obtain j where j: "j < length files" "e = files ! j"
          by (auto simp: in_set_conv_nth)
        from "1.prems" \<open>e \<in> set files\<close> have "entry_ok e" by blast
        from entry_ok_min [OF this e(2)] have h: "hasNext e" "key (currentPair e) \<le> fst q"
          by auto
        from mn j h(1) have "\<not> entry_less (files ! j) (files ! m)" by blast
        from entry_less_key [OF this] have "key (currentPair (files ! m)) \<le> key (currentPair e)"
          by (simp add: j)
        with h(2) show ?thesis by (simp add: p_def head_key)
      qed
    qed
    have so: "sorted (map fst (p # ps'))" using ps'(2) lb by auto
    have st: "\<forall>k. filter (\<lambda>q. fst q = k) (p # ps')
                  = filter (\<lambda>q. fst q = k) (concat (map rem_kv files))"
      if asc: "sorted (map (\<lambda>e. originalIndex (currentPair e)) files)"
    proof
      fix k
      have oi: "originalIndex (currentPair e') = originalIndex (currentPair (files ! m))"
        using readNext_spec [of "files ! m"] by (simp add: e'_def)
      from slot_order_update [OF asc m oi]
      have "sorted (map (\<lambda>e. originalIndex (currentPair e)) files')"
        by (simp add: files'_def)
      with ps'(4) have ih: "filter (\<lambda>q. fst q = k) ps'
                  = filter (\<lambda>q. fst q = k) (concat (map rem_kv files'))"
        by blast
      have before: "fst q \<noteq> fst p" if jq: "j < m" "q \<in> set (rem_kv (files ! j))" for j q
      proof -
        from jq(1) m have jl: "j < length files" by simp
        with "1.prems" have "entry_ok (files ! j)" by simp
        from entry_ok_min [OF this jq(2)]
        have h: "hasNext (files ! j)" "key (currentPair (files ! j)) \<le> fst q" by auto
        from fst_m jl h(1) jq(1) have el: "entry_less (files ! m) (files ! j)" by blast
        have "originalIndex (currentPair (files ! j)) \<le> originalIndex (currentPair (files ! m))"
          using sorted_nth_mono [OF asc, of j m] jq(1) m jl by simp
        with el have "key (currentPair (files ! m)) < key (currentPair (files ! j))"
          by (auto simp: entry_less_def)
        with h(2) show ?thesis by (auto simp: p_def head_key)
      qed
      from filter_concat_update [of m files rem_kv p e' k, OF m pop before]
      have "filter (\<lambda>q. fst q = k) (concat (map rem_kv files))
             = (if k = fst p then [p] else []) @
               filter (\<lambda>q. fst q = k) (concat (map rem_kv files'))"
        by (simp add: files'_def)
      with ih show "filter (\<lambda>q. fst q = k) (p # ps')
                  = filter (\<lambda>q. fst q = k) (concat (map rem_kv files))"
        by auto
    qed
    from out so ms st show ?thesis by blast
  qed
qed

section \<open>The whole sort\<close>

subsection \<open>Run files and entries\<close>

lemma lines_of_concat_format:
  "\<forall>r \<in> set rs. newline \<notin> set (val r) \<Longrightarrow>
   lines_of (concat (map format_line rs)) = map format_record rs"
proof (induction rs)
  case Nil
  then show ?case by (simp add: lines_of_def)
next
  case (Cons r rs)
  then have "newline \<notin> set (format_record r)"
    by (simp add: format_record_no_newline)
  from lines_of_line [OF this, of "concat (map format_line rs)"]
  have "lines_of (format_record r @ newline # concat (map format_line rs))
          = format_record r # lines_of (concat (map format_line rs))" .
  moreover have "concat (map format_line (r # rs))
          = format_record r @ newline # concat (map format_line rs)"
    by (simp add: format_line_record)
  moreover have "lines_of (concat (map format_line rs)) = map format_record rs"
    using Cons by simp
  ultimately show ?case by simp
qed

lemma well_formed_format_record: "well_formed (format_record r)"
  by (simp add: well_formed_def parse_format_record)

lemma kv_of_format_record: "kv_of (format_record r) = (key r, val r)"
  by (simp add: kv_of_def parse_format_record)

lemma records_of_concat_format:
  assumes "\<forall>r \<in> set rs. newline \<notin> set (val r)"
  shows "records_of (concat (map format_line rs)) = map (\<lambda>r. (key r, val r)) rs"
    and "list_all well_formed (lines_of (concat (map format_line rs)))"
  using lines_of_concat_format [OF assms]
  by (simp_all add: records_of_def kv_of_lines_def well_formed_format_record
        kv_of_format_record comp_def list_all_iff)

lemma format_kv_line: "format_kv p = format_line \<lparr>key = fst p, val = snd p, originalIndex = 0\<rparr>"
  by (simp add: format_kv_def format_line_def)

lemma records_of_concat_format_kv:
  assumes "\<forall>p \<in> set ps. newline \<notin> set (snd p)"
  shows "records_of (concat (map format_kv ps)) = ps"
    and "list_all well_formed (lines_of (concat (map format_kv ps)))"
proof -
  let ?rs = "map (\<lambda>p. \<lparr>key = fst p, val = snd p, originalIndex = 0\<rparr>) ps"
  have c: "concat (map format_kv ps) = concat (map format_line ?rs)"
    by (induction ps) (simp_all add: format_kv_line)
  have n: "\<forall>r \<in> set ?rs. newline \<notin> set (val r)" using assms by auto
  from records_of_concat_format [OF n] show "records_of (concat (map format_kv ps)) = ps"
    and "list_all well_formed (lines_of (concat (map format_kv ps)))"
    by (simp_all add: c comp_def)
qed

lemma kv_of_lines_no_newline:
  assumes "\<forall>l \<in> set ls. newline \<notin> set l" and "p \<in> set (kv_of_lines ls)"
  shows "newline \<notin> set (snd p)"
proof -
  from assms(2) obtain l where "l \<in> set ls" "p = kv_of l"
    by (auto simp: kv_of_lines_def)
  with assms(1) kv_of_val_subset [of l] show ?thesis by auto
qed

lemma records_of_no_newline: "p \<in> set (records_of c) \<Longrightarrow> newline \<notin> set (snd p)"
  unfolding records_of_def
  by (rule kv_of_lines_no_newline [of "lines_of c"]) (auto dest: lines_of_no_newline)

lemma avail_open:
  "avail (open_ifstream s p)
     = (case file_at s p of None \<Rightarrow> []
        | Some c \<Rightarrow> if p \<in> unreadable s then [] else lines_of c)"
  by (simp add: open_ifstream_def avail_def split: option.splits)

lemma avail_open_no_newline: "l \<in> set (avail (open_ifstream s p)) \<Longrightarrow> newline \<notin> set l"
  by (auto simp: avail_open dest: lines_of_no_newline split: option.splits if_splits)

lemma FileEntry_new_spec:
  "rem_kv (FileEntry_new s p slot) = kv_of_lines (avail (open_ifstream s p)) \<and>
   originalIndex (currentPair (FileEntry_new s p slot)) = originalIndex slot \<and>
   (hasNext (FileEntry_new s p slot) \<or> failbit (fstream (FileEntry_new s p slot)))"
  using readNext_spec
    [of "\<lparr>fstream = open_ifstream s p, currentPair = slot\<lparr>val := []\<rparr>, hasNext = False\<rparr>"]
  by (auto simp: FileEntry_new_def)

lemma openFiles_spec:
  "openFiles s out uninit n i acc = Some files \<Longrightarrow>
   files = acc @ map (\<lambda>j. FileEntry_new s (createTempFile out j) (uninit j)) [i..<n] \<and>
   (\<forall>j. i \<le> j \<and> j < n \<longrightarrow>
        \<not> failbit (fstream (FileEntry_new s (createTempFile out j) (uninit j))))"
proof (induction s out uninit n i acc rule: openFiles.induct)
  case (1 s out uninit n i acc)
  show ?case
  proof (cases "i < n")
    case False
    with "1.prems" show ?thesis by (subst (asm) openFiles.simps) auto
  next
    case True
    define e where "e = FileEntry_new s (createTempFile out i) (uninit i)"
    from "1.prems" True have nf: "\<not> failbit (fstream e)"
      and rec: "openFiles s out uninit n (i + 1) (acc @ [e]) = Some files"
      by (subst (asm) openFiles.simps, simp add: e_def Let_def split: if_splits)+
    from "1.IH" [OF True e_def nf rec]
    have ih: "files = (acc @ [e]) @ map (\<lambda>j. FileEntry_new s (createTempFile out j) (uninit j)) [i + 1..<n]"
      "\<forall>j. i + 1 \<le> j \<and> j < n \<longrightarrow>
        \<not> failbit (fstream (FileEntry_new s (createTempFile out j) (uninit j)))"
      by auto
    have "[i..<n] = i # [i + 1..<n]" using True by (simp add: upt_conv_Cons)
    with ih(1) have 1: "files = acc @ map (\<lambda>j. FileEntry_new s (createTempFile out j) (uninit j)) [i..<n]"
      by (simp add: e_def)
    have 2: "\<not> failbit (fstream (FileEntry_new s (createTempFile out j) (uninit j)))"
      if "i \<le> j \<and> j < n" for j
    proof (cases "j = i")
      case True
      with nf show ?thesis by (simp add: e_def)
    next
      case False
      with that ih(2) show ?thesis by simp
    qed
    from 1 2 show ?thesis by blast
  qed
qed

lemma removeTempFiles_spec:
  "file_at (removeTempFiles out n s) p
     = (if \<exists>i<n. p = createTempFile out i then None else file_at s p) \<and>
   unreadable (removeTempFiles out n s) = unreadable s \<and>
   unwritable (removeTempFiles out n s) = unwritable s"
proof (induction n)
  case 0
  then show ?case by (simp add: removeTempFiles_def)
next
  case (Suc n)
  have "removeTempFiles out (Suc n) s
          = remove_file (removeTempFiles out n s) (createTempFile out n)"
    by (simp add: removeTempFiles_def)
  with Suc show ?case by (auto simp: remove_file_def less_Suc_eq)
qed

lemma format_line_record_kv: "format_line r = format_kv (record_kv r)"
  by (simp add: format_line_kv record_kv_def)

lemma concat_format_line_kv:
  "concat (map format_line rs) = concat (map format_kv (map record_kv rs))"
  by (induction rs) (simp_all add: format_line_record_kv)

lemma numbered_records_record_kv:
  "map record_kv (numbered_records idx ls) = kv_of_lines ls"
  using numbered_records_kv [of idx ls] by (simp add: record_kv_def [abs_def])

lemma batches_no_newline:
  assumes "concat batches = numbered_records lp (take m (avail (open_ifstream s inp)))"
    and "b \<in> set batches" and "r \<in> set b"
  shows "newline \<notin> set (val r)"
proof -
  from assms have "r \<in> set (numbered_records lp (take m (avail (open_ifstream s inp))))"
    by (metis concat.simps(2) in_set_conv_decomp concat_append Un_iff set_append)
  from numbered_records_val [OF this] obtain l where
    "l \<in> set (take m (avail (open_ifstream s inp)))" "set (val r) \<subseteq> set l"
    by blast
  moreover from this(1) have "newline \<notin> set l"
    using avail_open_no_newline [of l s inp] by (auto dest: in_set_takeD)
  ultimately show ?thesis by blast
qed

lemma entry_of_run:
  assumes f: "file_at s1 p = Some (concat (map format_line rs))"
    and n: "\<forall>r \<in> set rs. newline \<notin> set (val r)"
    and so: "sorted (map key rs)"
    and nf: "\<not> failbit (fstream (FileEntry_new s1 p slot))"
  shows "rem_kv (FileEntry_new s1 p slot) = map record_kv rs \<and>
         entry_ok (FileEntry_new s1 p slot)"
proof -
  let ?e = "FileEntry_new s1 p slot"
  from FileEntry_new_spec [of s1 p slot] nf
  have rk: "rem_kv ?e = kv_of_lines (avail (open_ifstream s1 p))" and h: "hasNext ?e"
    by auto
  from h have "rem_kv ?e \<noteq> []" by (simp add: rem_kv_def)
  with rk have "avail (open_ifstream s1 p) \<noteq> []" by (auto simp: kv_of_lines_def)
  with f have "avail (open_ifstream s1 p) = lines_of (concat (map format_line rs))"
    by (auto simp: avail_open split: if_splits)
  with rk have "rem_kv ?e = records_of (concat (map format_line rs))"
    by (simp add: records_of_def)
  with records_of_concat_format(1) [OF n] have r: "rem_kv ?e = map record_kv rs"
    by (simp add: record_kv_def [abs_def])
  have "map fst (map record_kv rs) = map key rs" by (simp add: record_kv_def comp_def)
  with so have "sorted (map fst (map record_kv rs))" by (simp only:)
  with r h show ?thesis by (simp only: entry_ok_def) simp
qed

lemma mset_concat_sort_key: "mset (concat (map (sort_key f) bs)) = mset (concat bs)"
  by (induction bs) simp_all

subsection \<open>The output of a successful sort\<close>

text \<open>
  What a call of \<open>sort\<close> that returns true has done: the batches it wrote, the records
  \<open>ps\<close> of the output, and the other files.
\<close>

lemma filter_sort_key_kv:
  "filter (\<lambda>q. fst q = k) (map record_kv (sort_key key b))
     = filter (\<lambda>q. fst q = k) (map record_kv b)"
proof -
  have "filter (\<lambda>q. fst q = k) (map record_kv xs) = map record_kv (filter (\<lambda>r. key r = k) xs)"
    for xs
    by (induction xs) (simp_all add: record_kv_def)
  then show ?thesis by (simp add: sort_key_stable)
qed

lemma filter_concat_sort_key_kv:
  "filter (\<lambda>q. fst q = k) (map record_kv (concat (map (sort_key key) bs)))
     = filter (\<lambda>q. fst q = k) (map record_kv (concat bs))"
  by (induction bs) (simp_all add: filter_sort_key_kv)

lemma sort_output:
  assumes ok: "FileSorter_sort B inp out uninit s = (True, s')"
  shows "\<exists>batches m ps.
      m \<le> length (avail (open_ifstream s inp)) \<and>
      concat batches = numbered_records 0 (take m (avail (open_ifstream s inp))) \<and>
      (0 < B \<longrightarrow> createTempFile out (length batches) \<notin> unwritable s \<longrightarrow>
         kv_of_lines (drop m (avail (open_ifstream s inp))) = []) \<and>
      file_at s' out = Some (concat (map format_kv ps)) \<and> sorted (map fst ps) \<and>
      mset ps = mset (map record_kv (concat batches)) \<and>
      (sorted (map (\<lambda>i. originalIndex (uninit i)) [0..<length batches]) \<longrightarrow>
         (\<forall>k. filter (\<lambda>q. fst q = k) ps
                = filter (\<lambda>q. fst q = k) (map record_kv (concat batches)))) \<and>
      (\<forall>p. p \<noteq> out \<longrightarrow>
           file_at s' p = (if \<exists>i<length batches. p = createTempFile out i then None
                           else file_at s p)) \<and>
      (\<forall>p \<in> set ps. newline \<notin> set (snd p)) \<and>
      snd (sortLoop B out s (open_ifstream s inp) 0 0) = length batches \<and>
      (\<forall>i<length batches.
          file_at (fst (sortLoop B out s (open_ifstream s inp) 0 0)) (createTempFile out i)
            = Some (concat (map format_line (sort_key key (batches ! i))))) \<and>
      (\<forall>i. Suc i < length batches \<longrightarrow> B \<le> length (batches ! i)) \<and>
      [] \<notin> set batches"
proof -
  define input where "input = open_ifstream s inp"
  from ok have nf: "\<not> failbit input"
    by (auto simp: FileSorter_sort_def Let_def input_def split: if_splits)
  obtain s1 n where sl: "sortLoop B out s input 0 0 = (s1, n)"
    by (cases "sortLoop B out s input 0 0")
  from ok nf sl have mt:
    "(if n = 0 then (case open_ofstream s1 out of
                       (ok, s2) \<Rightarrow> if \<not> ok then (False, s2) else (True, s2))
      else mergeTempFiles out uninit s1 n) = (True, s')"
    by (simp add: FileSorter_sort_def Let_def input_def)
  from sortLoop_runs [OF sl] obtain batches m where b0:
    "n = 0 + length batches" "[] \<notin> set batches" "m \<le> length (avail input)"
    "concat batches = numbered_records 0 (take m (avail input))"
    "unreadable s1 = unreadable s" "unwritable s1 = unwritable s"
    "\<forall>i < length batches. file_at s1 (createTempFile out (0 + i))
           = Some (concat (map format_line (sort_key key (batches ! i))))"
    "\<forall>p. (\<forall>i < length batches. p \<noteq> createTempFile out (0 + i)) \<longrightarrow>
           file_at s1 p = file_at s p"
    "0 < B \<longrightarrow> createTempFile out n \<notin> unwritable s \<longrightarrow>
         kv_of_lines (drop m (avail input)) = []"
    "\<forall>i. Suc i < length batches \<longrightarrow> B \<le> length (batches ! i)"
    by blast
  then have n: "n = length batches"
    and run: "\<And>i. i < length batches \<Longrightarrow> file_at s1 (createTempFile out i)
           = Some (concat (map format_line (sort_key key (batches ! i))))"
    and frame1: "\<And>p. (\<forall>i < length batches. p \<noteq> createTempFile out i) \<Longrightarrow>
           file_at s1 p = file_at s p"
    by simp_all
  have nn: "newline \<notin> set (val r)" if "b \<in> set batches" "r \<in> set b" for b r
    using batches_no_newline [OF b0(4) [unfolded input_def] that] .
  have out1: "file_at s1 out = file_at s out"
    using frame1 [of out] createTempFile_neq_out [of out] by metis
  have main: "\<exists>ps. file_at s' out = Some (concat (map format_kv ps)) \<and> sorted (map fst ps) \<and>
      mset ps = mset (map record_kv (concat batches)) \<and>
      (sorted (map (\<lambda>i. originalIndex (uninit i)) [0..<length batches]) \<longrightarrow>
         (\<forall>k. filter (\<lambda>q. fst q = k) ps
                = filter (\<lambda>q. fst q = k) (map record_kv (concat batches)))) \<and>
      (\<forall>p. p \<noteq> out \<longrightarrow>
           file_at s' p = (if \<exists>i<length batches. p = createTempFile out i then None
                           else file_at s p))"
  proof (cases "n = 0")
    case True
    with mt have s': "s' = s1\<lparr>file_at := (file_at s1)(out \<mapsto> [])\<rparr>"
      by (auto simp: open_ofstream_def split: if_splits)
    from True n have e: "batches = []" by simp
    show ?thesis
      by (rule exI [of _ "[]"]) (use s' e frame1 in simp)
  next
    case False
    with mt have mt': "mergeTempFiles out uninit s1 n = (True, s')" by simp
    show ?thesis
    proof (cases "n = 1")
      case True
      with n obtain b where bs: "batches = [b]"
        by (cases batches) auto
      let ?t = "createTempFile out 0"
      let ?c = "concat (map format_line (sort_key key b))"
      from run [of 0] bs have t0: "file_at s1 ?t = Some ?c" by simp
      from mt' True have w: "out \<notin> unwritable s1"
        and s': "s' = remove_file
                  (write_file (s1\<lparr>file_at := (file_at s1)(out \<mapsto> [])\<rparr>) out
                     (rdbuf (s1\<lparr>file_at := (file_at s1)(out \<mapsto> [])\<rparr>) ?t)) ?t"
        by (auto simp: mergeTempFiles_def Let_def open_ofstream_def split: if_splits)
      have neq: "?t \<noteq> out" by (rule createTempFile_neq_out)
      have rd: "rdbuf (s1\<lparr>file_at := (file_at s1)(out \<mapsto> [])\<rparr>) ?t = ?c"
        using t0 neq by (simp add: rdbuf_def)
      have o: "file_at s' out = Some ?c"
        using neq by (simp add: s' rd remove_file_def write_file_def)
      have fr: "file_at s' p = (if p = ?t then None else file_at s p)" if "p \<noteq> out" for p
      proof (cases "p = ?t")
        case True
        then show ?thesis by (simp add: s' remove_file_def)
      next
        case False
        with that frame1 [of p] bs show ?thesis
          by (simp add: s' remove_file_def write_file_def)
      qed
      let ?ps = "map record_kv (sort_key key b)"
      have "sorted (map fst ?ps)"
        using sorted_sort_key [of key b] by (simp add: record_kv_def comp_def)
      moreover have "mset ?ps = mset (map record_kv (concat batches))"
        by (simp add: bs)
      moreover have "\<forall>k. filter (\<lambda>q. fst q = k) ?ps
                = filter (\<lambda>q. fst q = k) (map record_kv (concat batches))"
        using filter_sort_key_kv [of _ b] by (simp add: bs)
      moreover have "file_at s' out = Some (concat (map format_kv ?ps))"
        using o by (simp add: concat_format_line_kv)
      moreover have "\<forall>p. p \<noteq> out \<longrightarrow>
           file_at s' p = (if \<exists>i<length batches. p = createTempFile out i then None
                           else file_at s p)"
        using fr by (simp add: bs)
      ultimately show ?thesis by blast
    next
      case n1: False
      with False have n2: "2 \<le> n" by simp
      from mt' False n1 obtain files where
        of: "openFiles s1 out uninit n 0 [] = Some files"
        and w: "out \<notin> unwritable s1"
        and s': "s' = removeTempFiles out n
                   (write_file (s1\<lparr>file_at := (file_at s1)(out \<mapsto> [])\<rparr>) out
                      (snd (mergeLoop files [])))"
        by (auto simp: mergeTempFiles_def Let_def open_ofstream_def
              split: if_splits option.splits prod.splits)
      from openFiles_spec [OF of]
      have fs: "files = map (\<lambda>j. FileEntry_new s1 (createTempFile out j) (uninit j)) [0..<n]"
        and nfj: "\<And>j. j < n \<Longrightarrow>
            \<not> failbit (fstream (FileEntry_new s1 (createTempFile out j) (uninit j)))"
        by auto
      have ent: "rem_kv (files ! j) = map record_kv (sort_key key (batches ! j)) \<and>
                 entry_ok (files ! j)" if "j < n" for j
      proof -
        have "\<forall>r \<in> set (sort_key key (batches ! j)). newline \<notin> set (val r)"
          using nn [of "batches ! j"] that n by simp
        from entry_of_run [OF run [OF that [unfolded n]] this _ nfj [OF that]]
        show ?thesis using that by (simp add: fs)
      qed
      have len: "length files = n" by (simp add: fs)
      have "\<forall>e \<in> set files. entry_ok e"
        using ent len by (auto simp: in_set_conv_nth)
      from mergeLoop_sorted [OF this, of "[]"] obtain ps where ps:
        "snd (mergeLoop files []) = concat (map format_kv ps)"
        "sorted (map fst ps)" "mset ps = mset (concat (map rem_kv files))"
        "sorted (map (\<lambda>e. originalIndex (currentPair e)) files) \<longrightarrow>
           (\<forall>k. filter (\<lambda>q. fst q = k) ps
                  = filter (\<lambda>q. fst q = k) (concat (map rem_kv files)))"
        by auto
      have "map rem_kv files = map (\<lambda>b. map record_kv (sort_key key b)) batches"
        by (rule nth_equalityI) (use ent len n in simp_all)
      then have cc: "concat (map rem_kv files)
                   = map record_kv (concat (map (sort_key key) batches))"
        by (simp add: map_concat comp_def)
      with ps(3) have ms: "mset ps = mset (map record_kv (concat batches))"
        using mset_concat_sort_key [of key batches] by (metis mset_map)
      have oi: "map (\<lambda>e. originalIndex (currentPair e)) files
                  = map (\<lambda>i. originalIndex (uninit i)) [0..<length batches]"
        using FileEntry_new_spec by (simp add: fs n)
      have stb: "sorted (map (\<lambda>i. originalIndex (uninit i)) [0..<length batches]) \<longrightarrow>
         (\<forall>k. filter (\<lambda>q. fst q = k) ps
                = filter (\<lambda>q. fst q = k) (map record_kv (concat batches)))"
        using ps(4) by (simp add: oi cc filter_concat_sort_key_kv)
      from removeTempFiles_spec [of out n] createTempFile_neq_out [of out]
      have o: "file_at s' out = Some (concat (map format_kv ps))"
        by (simp add: s' write_file_def ps(1)) metis
      have fr: "\<forall>p. p \<noteq> out \<longrightarrow>
           file_at s' p = (if \<exists>i<length batches. p = createTempFile out i then None
                           else file_at s p)"
      proof (intro allI impI)
        fix p assume "p \<noteq> out"
        then show "file_at s' p = (if \<exists>i<length batches. p = createTempFile out i then None
                           else file_at s p)"
          using removeTempFiles_spec [of out n] frame1 [of p]
          by (auto simp: s' write_file_def n)
      qed
      from o ps(2) ms stb fr show ?thesis by blast
    qed
  qed
  then obtain ps where ps:
    "file_at s' out = Some (concat (map format_kv ps))" "sorted (map fst ps)"
    "mset ps = mset (map record_kv (concat batches))"
    "sorted (map (\<lambda>i. originalIndex (uninit i)) [0..<length batches]) \<longrightarrow>
         (\<forall>k. filter (\<lambda>q. fst q = k) ps
                = filter (\<lambda>q. fst q = k) (map record_kv (concat batches)))"
    "\<forall>p. p \<noteq> out \<longrightarrow>
           file_at s' p = (if \<exists>i<length batches. p = createTempFile out i then None
                           else file_at s p)"
    by blast
  have nl: "\<forall>p \<in> set ps. newline \<notin> set (snd p)"
  proof
    fix p assume "p \<in> set ps"
    with ps(3) have "p \<in> set (map record_kv (concat batches))"
      by (metis set_mset_mset)
    then obtain b r where "b \<in> set batches" "r \<in> set b" "p = record_kv r" by auto
    with nn [of b r] show "newline \<notin> set (snd p)" by (simp add: record_kv_def)
  qed
  have cnt: "snd (sortLoop B out s (open_ifstream s inp) 0 0) = length batches"
    using sl n by (simp add: input_def)
  have runs: "\<forall>i<length batches.
          file_at (fst (sortLoop B out s (open_ifstream s inp) 0 0)) (createTempFile out i)
            = Some (concat (map format_line (sort_key key (batches ! i))))"
    using sl run by (simp add: input_def)
  from b0(2,3,4,9,10) n ps nl cnt runs show ?thesis
    unfolding input_def by blast
qed

subsection \<open>Concrete runs\<close>

lemma temp_paths:
  "createTempFile ''out'' 0 = ''out.temp0''"
  "createTempFile ''out'' 1 = ''out.temp1''"
  "createTempFile ''out'' (Suc 0) = ''out.temp1''"
  "createTempFile ''out'' 2 = ''out.temp2''"
  by (simp_all add: createTempFile_def to_string.simps digit_char_def)

lemma upt_0_2: "[0..<2::nat] = [0, Suc 0]"
  by (simp add: numeral_2_eq_2)

lemma format_line_small:
  "format_line \<lparr>key = 1, val = v, originalIndex = i\<rparr> = ''1:'' @ v @ [newline]"
  "format_line \<lparr>key = 3, val = v, originalIndex = i\<rparr> = ''3:'' @ v @ [newline]"
  "format_line \<lparr>key = 4, val = v, originalIndex = i\<rparr> = ''4:'' @ v @ [newline]"
  "format_line \<lparr>key = 5, val = v, originalIndex = i\<rparr> = ''5:'' @ v @ [newline]"
  by (simp_all add: format_line_def to_string.simps digit_char_def)

lemmas run_simps =
  parseKeyValue_def from_chars_def is_digit_def dec_val_def digit_val_def lines_of_def
  getline_def open_ifstream_def Let_def word_le_nat_alt word_less_nat_alt
  readBatch.simps sortBatch_def sortLoop.simps open_ofstream_def write_file_def
  mergeTempFiles_def openFiles.simps FileEntry_new_def readNext.simps selectMin_def
  selectStep_def mergeLoop.simps removeTempFiles_def remove_file_def rdbuf_def
  FileSorter_sort_def main_exit_def BATCH_SIZE_def temp_paths upt_0_2 format_line_small
  fs_with_def

lemma run_5351:
  "FileSorter_sort BATCH_SIZE ''in'' ''out'' uninit_zero (fs_with lines_5351 {})
     = (True, \<lparr>file_at = [''in'' \<mapsto> lines_5351,
                          ''out'' \<mapsto> ''1:d'' @ [newline] @ ''3:b'' @ [newline] @
                                     ''5:a'' @ [newline] @ ''5:c'' @ [newline]],
              unreadable = {}, unwritable = {}\<rparr>)"
proof -
  have "fst (FileSorter_sort BATCH_SIZE ''in'' ''out'' uninit_zero (fs_with lines_5351 {}))" (is "fst ?r")
    by (simp add: run_simps lines_5351_def newline_def)
  moreover have "file_at (snd ?r) = [''in'' \<mapsto> lines_5351,
                          ''out'' \<mapsto> ''1:d'' @ [newline] @ ''3:b'' @ [newline] @
                                     ''5:a'' @ [newline] @ ''5:c'' @ [newline]]"
    by (rule ext) (simp add: run_simps lines_5351_def newline_def)
  moreover have "unreadable (snd ?r) = {}" "unwritable (snd ?r) = {}"
    by (simp_all add: run_simps lines_5351_def newline_def)
  ultimately show ?thesis
    by (cases ?r) (auto intro: fs.equality)
qed

section \<open>Two runs with equal keys\<close>

text \<open>
  Scenario 5 of the specification, batch size 2 and three lines with the key 4: the output
  is in input order when the storage of the merge entries holds zeros, and has the record
  of the last line first when the second entry holds a smaller number than the first.
\<close>

lemma run_444_zero:
  "FileSorter_sort 2 ''in'' ''out'' uninit_zero (fs_with lines_444 {})
     = (True, \<lparr>file_at = [''in'' \<mapsto> lines_444,
                          ''out'' \<mapsto> ''4:a'' @ [newline] @ ''4:b'' @ [newline] @ ''4:c'' @ [newline]],
              unreadable = {}, unwritable = {}\<rparr>)"
proof -
  have "fst (FileSorter_sort 2 ''in'' ''out'' uninit_zero (fs_with lines_444 {}))" (is "fst ?r")
    by (simp add: run_simps lines_444_def newline_def uninit_zero_def)
  moreover have "file_at (snd ?r) = [''in'' \<mapsto> lines_444,
          ''out'' \<mapsto> ''4:a'' @ [newline] @ ''4:b'' @ [newline] @ ''4:c'' @ [newline]]"
    by (rule ext) (simp add: run_simps lines_444_def newline_def uninit_zero_def)
  moreover have "unreadable (snd ?r) = {}" "unwritable (snd ?r) = {}"
    by (simp_all add: run_simps lines_444_def newline_def uninit_zero_def)
  ultimately show ?thesis
    by (cases ?r) (auto intro: fs.equality)
qed

lemma run_444_desc:
  "FileSorter_sort 2 ''in'' ''out'' uninit_desc (fs_with lines_444 {})
     = (True, \<lparr>file_at = [''in'' \<mapsto> lines_444,
                          ''out'' \<mapsto> ''4:c'' @ [newline] @ ''4:a'' @ [newline] @ ''4:b'' @ [newline]],
              unreadable = {}, unwritable = {}\<rparr>)"
proof -
  have "fst (FileSorter_sort 2 ''in'' ''out'' uninit_desc (fs_with lines_444 {}))" (is "fst ?r")
    by (simp add: run_simps lines_444_def newline_def uninit_desc_def)
  moreover have "file_at (snd ?r) = [''in'' \<mapsto> lines_444,
          ''out'' \<mapsto> ''4:c'' @ [newline] @ ''4:a'' @ [newline] @ ''4:b'' @ [newline]]"
    by (rule ext) (simp add: run_simps lines_444_def newline_def uninit_desc_def)
  moreover have "unreadable (snd ?r) = {}" "unwritable (snd ?r) = {}"
    by (simp_all add: run_simps lines_444_def newline_def uninit_desc_def)
  ultimately show ?thesis
    by (cases ?r) (auto intro: fs.equality)
qed

text \<open>
  The same with any batch size above 1: a file of \<open>B\<close> lines \<open>4:a\<close> and one line \<open>4:c\<close>
  gives two runs, and with that storage the merge writes the line \<open>4:c\<close> first.
\<close>

lemma lines_of_replicate:
  "newline \<notin> set l \<Longrightarrow>
   lines_of (concat (replicate n (l @ [newline])) @ rest) = replicate n l @ lines_of rest"
proof (induction n)
  case 0
  then show ?case by simp
next
  case (Suc n)
  from lines_of_line [OF Suc.prems, of "concat (replicate n (l @ [newline])) @ rest"] Suc
  show ?case by simp
qed

lemma readBatch_replicate:
  "well_formed l \<Longrightarrow> length b + n = B \<Longrightarrow>
   readBatch B lp \<lparr>failbit = False, pending = replicate n l @ rest\<rparr> b li
     = (b @ numbered_records (lp + li) (replicate n l), li + n,
        \<lparr>failbit = False, pending = rest\<rparr>)"
proof (induction n arbitrary: b li)
  case 0
  then show ?case by (subst readBatch.simps) simp
next
  case (Suc n)
  let ?p = "\<lparr>key = fst (kv_of l), val = snd (kv_of l), originalIndex = lp + li\<rparr>"
  from Suc.prems have lt: "length b < B" and len: "length (b @ [?p]) + n = B" by simp_all
  have "readBatch B lp \<lparr>failbit = False, pending = replicate (Suc n) l @ rest\<rparr> b li
          = readBatch B lp \<lparr>failbit = False, pending = replicate n l @ rest\<rparr> (b @ [?p]) (li + 1)"
    using lt Suc.prems(1) by (subst readBatch.simps) (simp add: getline_def parse_char)
  also have "\<dots> = ((b @ [?p]) @ numbered_records (lp + (li + 1)) (replicate n l), li + 1 + n,
        \<lparr>failbit = False, pending = rest\<rparr>)"
    by (rule Suc.IH [OF Suc.prems(1) len])
  finally show ?case using Suc.prems(1) by (simp add: add.assoc)
qed

lemma line_4a: "well_formed ''4:a''" "kv_of ''4:a'' = (4, ''a'')"
  by (simp_all add: well_formed_def kv_of_def parseKeyValue_def from_chars_def is_digit_def
        dec_val_def digit_val_def)

lemma line_4c: "well_formed ''4:c''" "kv_of ''4:c'' = (4, ''c'')"
  by (simp_all add: well_formed_def kv_of_def parseKeyValue_def from_chars_def is_digit_def
        dec_val_def digit_val_def)

lemma format_kv_4: "format_kv (4, v) = ''4:'' @ v @ [newline]"
  by (simp add: format_kv_def to_string.simps digit_char_def)

lemma numbered_replicate_kv:
  "well_formed l \<Longrightarrow> map record_kv (numbered_records idx (replicate n l)) = replicate n (kv_of l)"
  by (induction n arbitrary: idx) (simp_all add: record_kv_def)

lemma batch_4a_text:
  "concat (map format_line (sort_key key (numbered_records idx (replicate n ''4:a''))))
     = concat (replicate n (''4:a'' @ [newline]))"
proof -
  let ?b = "numbered_records idx (replicate n ''4:a'')"
  have kv: "map record_kv ?b = replicate n (4, ''a'')"
    using numbered_replicate_kv [OF line_4a(1), of idx n] by (simp add: line_4a)
  have "map key ?b = map fst (map record_kv ?b)" by (simp add: record_kv_def comp_def)
  with kv have "map key ?b = replicate n 4" by simp
  then have "sorted (map key ?b)" by (simp add: sorted_replicate)
  then have "sort_key key ?b = ?b" by (rule sort_key_id_if_sorted)
  moreover have "concat (map format_line ?b) = concat (map format_kv (map record_kv ?b))"
    by (rule concat_format_line_kv)
  ultimately show ?thesis
    by (simp add: kv format_kv_4 map_replicate)
qed

lemma first_batch:
  assumes "0 < B" and "unwritable s = {}"
  shows "sortBatch B ''out'' s \<lparr>failbit = False, pending = replicate B ''4:a'' @ [''4:c'']\<rparr> 0 0
     = (True,
        s\<lparr>file_at := (file_at s)(''out.temp0'' \<mapsto> concat (replicate B (''4:a'' @ [newline])))\<rparr>,
        \<lparr>failbit = False, pending = [''4:c'']\<rparr>, B)"
proof -
  have rb: "readBatch B 0 \<lparr>failbit = False, pending = replicate B ''4:a'' @ [''4:c'']\<rparr> [] 0
      = (numbered_records 0 (replicate B ''4:a''), B, \<lparr>failbit = False, pending = [''4:c'']\<rparr>)"
    using readBatch_replicate [OF line_4a(1), of "[]" B B 0 "[''4:c'']" 0] by simp
  have ne: "numbered_records 0 (replicate B ''4:a'') \<noteq> []"
    using assms(1) by (cases B) (simp_all add: line_4a)
  show ?thesis
    using ne assms(2)
    by (simp add: sortBatch_def rb open_ofstream_def write_file_def temp_paths batch_4a_text
          del: replicate.simps)
qed

lemma second_batch:
  assumes "1 < B" and "unwritable s = {}"
  shows "sortBatch B ''out'' s \<lparr>failbit = False, pending = [''4:c'']\<rparr> 1 lp
     = (True, s\<lparr>file_at := (file_at s)(''out.temp1'' \<mapsto> ''4:c'' @ [newline])\<rparr>,
        \<lparr>failbit = True, pending = []\<rparr>, lp + 1)"
proof -
  have rb: "readBatch B lp \<lparr>failbit = False, pending = [''4:c'']\<rparr> [] 0
      = ([\<lparr>key = 4, val = ''c'', originalIndex = lp\<rparr>], 1, \<lparr>failbit = True, pending = []\<rparr>)"
    using assms(1) line_4c
    by (subst readBatch.simps, simp add: getline_def parse_char,
        subst readBatch.simps, simp add: getline_def)
  show ?thesis
    using assms(2)
    by (simp add: sortBatch_def rb open_ofstream_def write_file_def temp_paths format_line_small)
qed

lemma no_batch:
  "sortBatch B out s \<lparr>failbit = True, pending = []\<rparr> n lp
     = (False, s, \<lparr>failbit = True, pending = []\<rparr>, lp)"
  by (simp add: sortBatch_def readBatch_failed)

lemma batch_phase_over:
  assumes "1 < B" and "unwritable s = {}"
  shows "sortLoop B ''out'' s \<lparr>failbit = False, pending = replicate B ''4:a'' @ [''4:c'']\<rparr> 0 0
     = (s\<lparr>file_at := (file_at s)(''out.temp0'' \<mapsto> concat (replicate B (''4:a'' @ [newline])),
                                  ''out.temp1'' \<mapsto> ''4:c'' @ [newline])\<rparr>, 2)"
proof -
  from assms(1) have b0: "0 < B" by simp
  let ?s1 = "s\<lparr>file_at := (file_at s)(''out.temp0'' \<mapsto> concat (replicate B (''4:a'' @ [newline])))\<rparr>"
  have u1: "unwritable ?s1 = {}" using assms(2) by simp
  show ?thesis
    by (subst sortLoop.simps, simp only: first_batch [OF b0 assms(2)] prod.case bool.case if_True,
        subst sortLoop.simps, simp only: second_batch [OF assms(1) u1] prod.case bool.case if_True
          add_0 one_add_one,
        subst sortLoop.simps, simp add: no_batch)
qed

lemma mergeLoop_prefix: "\<exists>t. snd (mergeLoop files out) = out @ t"
proof (induction files out rule: mergeLoop.induct)
  case (1 files out)
  obtain m found where sm: "selectMin files = (m, found)"
    by (cases "selectMin files")
  show ?case
  proof (cases found)
    case False
    with sm show ?thesis by (subst mergeLoop.simps) simp
  next
    case True
    from "1.IH" [OF sm [symmetric]] True obtain t where
      "snd (mergeLoop (files[m := readNext (files ! m)])
              (out @ format_line (currentPair (files ! m))))
         = (out @ format_line (currentPair (files ! m))) @ t"
      by auto
    with sm True show ?thesis by (subst mergeLoop.simps) simp
  qed
qed

lemma FileEntry_new_head:
  assumes "kv_of_lines (avail (open_ifstream s p)) = q # qs"
  shows "hasNext (FileEntry_new s p slot) \<and> \<not> failbit (fstream (FileEntry_new s p slot)) \<and>
         head_kv (FileEntry_new s p slot) = q \<and>
         originalIndex (currentPair (FileEntry_new s p slot)) = originalIndex slot"
proof -
  let ?ini = "\<lparr>fstream = open_ifstream s p, currentPair = slot\<lparr>val := []\<rparr>, hasNext = False\<rparr>"
  let ?e = "FileEntry_new s p slot"
  from readNext_spec [of ?ini] assms have r: "rem_kv ?e = q # qs"
    and oi: "originalIndex (currentPair ?e) = originalIndex slot"
    and f: "\<not> hasNext ?e \<longrightarrow> failbit (fstream ?e)"
    and nf: "hasNext ?e \<longrightarrow> \<not> failbit (fstream ?e)"
    by (simp_all add: FileEntry_new_def)
  have h: "hasNext ?e"
  proof (rule ccontr)
    assume n: "\<not> hasNext ?e"
    with f have "failbit (fstream ?e)" by simp
    with n have "rem_kv ?e = []" by (simp add: rem_kv_def avail_def kv_of_lines_def)
    with r show False by simp
  qed
  with r have "head_kv ?e = q" by (simp add: rem_kv_def)
  with h nf oi show ?thesis by simp
qed

lemma kv_of_lines_replicate:
  "well_formed l \<Longrightarrow> kv_of_lines (replicate n l) = replicate n (kv_of l)"
  by (induction n) (simp_all add: kv_of_lines_Cons kv_of_lines_def)

lemma merge_over:
  assumes "0 < B" and "unreadable s = {}" and "unwritable s = {}"
    and t0: "file_at s ''out.temp0'' = Some (concat (replicate B (''4:a'' @ [newline])))"
    and t1: "file_at s ''out.temp1'' = Some (''4:c'' @ [newline])"
  shows "\<exists>t. fst (mergeTempFiles ''out'' uninit_desc s 2) \<and>
             file_at (snd (mergeTempFiles ''out'' uninit_desc s 2)) ''out''
               = Some (''4:c'' @ [newline] @ t)"
proof -
  define e0 where "e0 = FileEntry_new s ''out.temp0'' (uninit_desc 0)"
  define e1 where "e1 = FileEntry_new s ''out.temp1'' (uninit_desc (Suc 0))"
  have nl: "newline \<notin> set ''4:a''" "newline \<notin> set ''4:c''" by (simp_all add: newline_def)
  have a0: "avail (open_ifstream s ''out.temp0'') = replicate B ''4:a''"
    using lines_of_replicate [OF nl(1), of B "[]"] t0 assms(2)
    by (simp add: avail_open lines_of_def)
  have a1: "avail (open_ifstream s ''out.temp1'') = [''4:c'']"
    using lines_of_line [OF nl(2), of "[]"] t1 assms(2)
    by (simp add: avail_open lines_of_def)
  obtain B' where B': "B = Suc B'" using assms(1) by (cases B) auto
  have k0: "kv_of_lines (avail (open_ifstream s ''out.temp0'')) = (4, ''a'') # replicate B' (4, ''a'')"
    using kv_of_lines_replicate [OF line_4a(1), of B] by (simp add: a0 line_4a B')
  have k1: "kv_of_lines (avail (open_ifstream s ''out.temp1'')) = [(4, ''c'')]"
    by (simp add: a1 kv_of_lines_Cons line_4c kv_of_lines_def)
  from FileEntry_new_head [OF k0, of "uninit_desc 0"]
  have f0: "hasNext e0" "\<not> failbit (fstream e0)" "key (currentPair e0) = 4"
    "originalIndex (currentPair e0) = 1"
    by (simp_all add: e0_def head_kv_def uninit_desc_def)
  from FileEntry_new_head [OF k1, of "uninit_desc (Suc 0)"]
  have f1: "hasNext e1" "\<not> failbit (fstream e1)" "key (currentPair e1) = 4"
    "val (currentPair e1) = ''c''" "originalIndex (currentPair e1) = 0"
    by (simp_all add: e1_def head_kv_def uninit_desc_def)
  have op: "openFiles s ''out'' uninit_desc 2 0 [] = Some [e0, e1]"
    using f0(2) f1(2)
    by (subst openFiles.simps, simp add: temp_paths e0_def [symmetric] Let_def,
        subst openFiles.simps, simp add: temp_paths e1_def [symmetric] Let_def,
        subst openFiles.simps, simp)
  have sm: "selectMin [e0, e1] = (1, True)"
    using f0 f1 by (simp add: selectMin_def selectStep_def)
  have "format_line (currentPair e1) = ''4:c'' @ [newline]"
    using f1 by (simp add: format_line_def to_string.simps digit_char_def)
  with sm have "mergeLoop [e0, e1] []
      = mergeLoop ([e0, e1][1 := readNext ([e0, e1] ! 1)]) (''4:c'' @ [newline])"
    by (subst mergeLoop.simps) simp
  with mergeLoop_prefix [of "[e0, e1][1 := readNext ([e0, e1] ! 1)]" "''4:c'' @ [newline]"]
  obtain t where t: "snd (mergeLoop [e0, e1] []) = ''4:c'' @ [newline] @ t" by auto
  obtain fl ot where ml: "mergeLoop [e0, e1] [] = (fl, ot)" by (cases "mergeLoop [e0, e1] []")
  with t have ot: "ot = ''4:c'' @ [newline] @ t" by simp
  have r: "mergeTempFiles ''out'' uninit_desc s 2
      = (True, removeTempFiles ''out'' 2
                 (write_file (s\<lparr>file_at := (file_at s)(''out'' \<mapsto> [])\<rparr>) ''out'' ot))"
    using assms(3) by (simp add: mergeTempFiles_def op open_ofstream_def ml)
  have "file_at (removeTempFiles ''out'' 2
                 (write_file (s\<lparr>file_at := (file_at s)(''out'' \<mapsto> [])\<rparr>) ''out'' ot)) ''out''
          = Some ot"
    using removeTempFiles_spec [of "''out''" 2] createTempFile_neq_out [of "''out''"]
    by (simp add: write_file_def) metis
  with r ot show ?thesis by simp
qed

lemma sort_over:
  assumes "1 < B"
  shows "\<exists>t. fst (FileSorter_sort B ''in'' ''out'' uninit_desc (fs_with (lines_over B) {})) \<and>
             file_at (snd (FileSorter_sort B ''in'' ''out'' uninit_desc (fs_with (lines_over B) {})))
               ''out'' = Some (''4:c'' @ [newline] @ t)"
proof -
  let ?s = "fs_with (lines_over B) {}"
  have nl: "newline \<notin> set ''4:a''" "newline \<notin> set ''4:c''" by (simp_all add: newline_def)
  have "lines_of (lines_over B) = replicate B ''4:a'' @ lines_of (''4:c'' @ [newline])"
    unfolding lines_over_def using lines_of_replicate [OF nl(1)] by simp
  also have "lines_of (''4:c'' @ [newline]) = [''4:c'']"
    using lines_of_line [OF nl(2), of "[]"] by (simp add: lines_of_def)
  finally have inp: "open_ifstream ?s ''in''
      = \<lparr>failbit = False, pending = replicate B ''4:a'' @ [''4:c'']\<rparr>"
    by (simp add: open_ifstream_def fs_with_def)
  have u: "unwritable ?s = {}" "unreadable ?s = {}" by (simp_all add: fs_with_def)
  let ?s2 = "?s\<lparr>file_at := (file_at ?s)(''out.temp0'' \<mapsto> concat (replicate B (''4:a'' @ [newline])),
                                  ''out.temp1'' \<mapsto> ''4:c'' @ [newline])\<rparr>"
  have sl: "sortLoop B ''out'' ?s \<lparr>failbit = False, pending = replicate B ''4:a'' @ [''4:c'']\<rparr> 0 0
              = (?s2, 2)"
    by (rule batch_phase_over [OF assms u(1)])
  have r: "FileSorter_sort B ''in'' ''out'' uninit_desc ?s = mergeTempFiles ''out'' uninit_desc ?s2 2"
    unfolding FileSorter_sort_def Let_def inp sl by simp
  from assms have b0: "0 < B" by simp
  have "\<exists>t. fst (mergeTempFiles ''out'' uninit_desc ?s2 2) \<and>
             file_at (snd (mergeTempFiles ''out'' uninit_desc ?s2 2)) ''out''
               = Some (''4:c'' @ [newline] @ t)"
    by (rule merge_over [OF b0]) (simp_all add: u)
  then show ?thesis by (simp only: r)
qed

lemma records_of_lines_over:
  "records_of (lines_over B) = replicate B (4, ''a'') @ [(4, ''c'')]"
proof -
  have nl: "newline \<notin> set ''4:a''" "newline \<notin> set ''4:c''" by (simp_all add: newline_def)
  have "lines_of (lines_over B) = replicate B ''4:a'' @ lines_of (''4:c'' @ [newline])"
    unfolding lines_over_def using lines_of_replicate [OF nl(1)] by simp
  also have "lines_of (''4:c'' @ [newline]) = [''4:c'']"
    using lines_of_line [OF nl(2), of "[]"] by (simp add: lines_of_def)
  finally show ?thesis
    by (simp add: records_of_def kv_of_lines_def line_4a line_4c)
qed

lemma records_of_4c_first:
  "records_of (''4:c'' @ [newline] @ t) = (4, ''c'') # records_of t"
proof -
  have "newline \<notin> set ''4:c''" by (simp add: newline_def)
  from lines_of_line [OF this, of t] show ?thesis
    by (simp add: records_of_def kv_of_lines_Cons line_4c)
qed

lemma batch_size_gt_1: "1 < BATCH_SIZE"
  by (simp add: BATCH_SIZE_def)

lemma lines_over_formatted:
  "lines_over B = concat (map format_kv (replicate B (4, ''a'') @ [(4, ''c'')]))"
  by (simp add: lines_over_def format_kv_4 map_replicate)

section \<open>The sort as a stable sort\<close>

text \<open>
  When every run file can be created, the records of the output of a successful sort are
  those of the input. When in addition the \<open>originalIndex\<close> fields of the storage of the
  merge entries do not decrease, the output holds the records in the order of the stable
  sort by key. An input of at most \<open>B\<close> records gives at most one run.
\<close>

lemma kv_of_lines_append: "kv_of_lines (xs @ ys) = kv_of_lines xs @ kv_of_lines ys"
  by (simp add: kv_of_lines_def)

lemma mono_sorted_upt: "mono f \<Longrightarrow> sorted (map f [0..<n])"
  by (auto simp: sorted_iff_nth_mono dest: monoD)

lemma sort_stable_sort:
  assumes ok: "FileSorter_sort B inp out uninit s = (True, s')"
    and B: "0 < B"
    and w: "\<forall>i. createTempFile out i \<notin> unwritable s"
    and c: "file_at s inp = Some c"
  shows "\<exists>content. file_at s' out = Some content \<and>
           mset (records_of content) = mset (records_of c) \<and>
           (sorted (map (\<lambda>i. originalIndex (uninit i))
                      [0..<snd (sortLoop B out s (open_ifstream s inp) 0 0)]) \<longrightarrow>
              content = concat (map format_kv (sort_key fst (records_of c)))) \<and>
           (length (records_of c) \<le> B \<longrightarrow>
              snd (sortLoop B out s (open_ifstream s inp) 0 0) \<le> 1)"
proof -
  from ok have "\<not> failbit (open_ifstream s inp)"
    by (auto simp: FileSorter_sort_def Let_def split: if_splits)
  with c have av: "avail (open_ifstream s inp) = lines_of c"
    by (auto simp: open_ifstream_def avail_def split: if_splits)
  from sort_output [OF ok] obtain batches m ps where f:
    "concat batches = numbered_records 0 (take m (avail (open_ifstream s inp)))"
    "0 < B \<longrightarrow> createTempFile out (length batches) \<notin> unwritable s \<longrightarrow>
         kv_of_lines (drop m (avail (open_ifstream s inp))) = []"
    "file_at s' out = Some (concat (map format_kv ps))" "sorted (map fst ps)"
    "mset ps = mset (map record_kv (concat batches))"
    "sorted (map (\<lambda>i. originalIndex (uninit i)) [0..<length batches]) \<longrightarrow>
         (\<forall>k. filter (\<lambda>q. fst q = k) ps
                = filter (\<lambda>q. fst q = k) (map record_kv (concat batches)))"
    "\<forall>p \<in> set ps. newline \<notin> set (snd p)"
    "snd (sortLoop B out s (open_ifstream s inp) 0 0) = length batches"
    "\<forall>i. Suc i < length batches \<longrightarrow> B \<le> length (batches ! i)"
    "[] \<notin> set batches"
    by blast
  from f(2) B w have d: "kv_of_lines (drop m (lines_of c)) = []" by (simp add: av)
  have "kv_of_lines (lines_of c)
          = kv_of_lines (take m (lines_of c)) @ kv_of_lines (drop m (lines_of c))"
    by (metis append_take_drop_id kv_of_lines_append)
  with d have "kv_of_lines (take m (lines_of c)) = records_of c"
    by (simp add: records_of_def)
  with f(1) have rc: "map record_kv (concat batches) = records_of c"
    by (simp add: av numbered_records_record_kv)
  let ?c = "concat (map format_kv ps)"
  from records_of_concat_format_kv(1) [OF f(7)] have r: "records_of ?c = ps" .
  have ms: "mset (records_of ?c) = mset (records_of c)"
    using f(5) by (simp add: r rc)
  have st: "?c = concat (map format_kv (sort_key fst (records_of c)))"
    if "sorted (map (\<lambda>i. originalIndex (uninit i))
                  [0..<snd (sortLoop B out s (open_ifstream s inp) 0 0)])"
  proof -
    from that f(6,8)
    have st: "\<And>k. filter (\<lambda>q. fst q = k) ps = filter (\<lambda>q. fst q = k) (records_of c)"
      by (simp add: rc)
    have "sort_key fst (records_of c) = ps"
    proof (rule properties_for_sort_key)
      show "mset ps = mset (records_of c)" using f(5) by (simp add: rc)
      show "sorted (map fst ps)" by (rule f(4))
      show "filter (\<lambda>x. fst k = fst x) ps = filter (\<lambda>x. fst k = fst x) (records_of c)" for k
        using st [of "fst k"] by (simp add: eq_commute)
    qed
    then show ?thesis by simp
  qed
  have one: "snd (sortLoop B out s (open_ifstream s inp) 0 0) \<le> 1"
    if le: "length (records_of c) \<le> B"
  proof (rule ccontr)
    assume "\<not> snd (sortLoop B out s (open_ifstream s inp) 0 0) \<le> 1"
    with f(8) obtain b0 b1 rest where bs: "batches = b0 # b1 # rest"
      by (cases batches; cases "tl batches") auto
    with f(9) have "B \<le> length b0" by auto
    moreover from bs f(10) have "b1 \<noteq> []" by auto
    ultimately have "B < length (concat batches)"
      by (cases b1) (simp_all add: bs)
    moreover have "length (concat batches) = length (records_of c)"
      using rc by (metis length_map)
    ultimately show False using le by simp
  qed
  from f(3) ms st one show ?thesis by blast
qed

text \<open>The output is the stable sort when the numbers in the storage do not decrease.\<close>

lemma sort_stable_sort_mono:
  assumes "FileSorter_sort B inp out uninit s = (True, s')"
    and "0 < B"
    and "\<forall>i. createTempFile out i \<notin> unwritable s"
    and "file_at s inp = Some c"
    and "mono (\<lambda>i. originalIndex (uninit i))"
  shows "file_at s' out = Some (concat (map format_kv (sort_key fst (records_of c))))"
  using sort_stable_sort [OF assms(1-4)] mono_sorted_upt [OF assms(5)] by auto

text \<open>Then a file that the program could have written is written again unchanged.\<close>

lemma resort_identical:
  assumes ok: "FileSorter_sort B inp out uninit s = (True, s')"
    and B: "0 < B"
    and w: "\<forall>i. createTempFile out i \<notin> unwritable s"
    and mo: "mono (\<lambda>i. originalIndex (uninit i))"
    and c: "file_at s inp = Some (concat (map format_kv rs))"
    and so: "sorted (map fst rs)"
    and nl: "\<forall>p \<in> set rs. newline \<notin> set (snd p)"
  shows "file_at s' out = Some (concat (map format_kv rs))"
proof -
  from records_of_concat_format_kv(1) [OF nl] have r: "records_of (concat (map format_kv rs)) = rs" .
  from sort_key_id_if_sorted [OF so] have "sort_key fst rs = rs" .
  with sort_stable_sort_mono [OF ok B w c mo] r show ?thesis by simp
qed

text \<open>
  The run of the file of \<open>B\<close> lines \<open>4:a\<close> and one line \<open>4:c\<close> with the storage whose second
  entry holds the smaller number: all records are written, the one of the last line first.
\<close>

lemma mset_replicate_eq:
  assumes "mset xs = mset (replicate n x)"
  shows "xs = replicate n x"
proof -
  from assms have "size (mset xs) = size (mset (replicate n x))" by simp
  then have l: "length xs = n" by simp
  from assms have "set xs = set (replicate n x)" by (rule mset_eq_setD)
  then have "\<forall>y \<in> set xs. y = x" by auto
  then have "replicate (length xs) x = xs" by (rule replicate_length_same)
  with l show ?thesis by simp
qed

lemma sort_over_records:
  assumes "1 < B"
  shows "fst (FileSorter_sort B ''in'' ''out'' uninit_desc (fs_with (lines_over B) {})) \<and>
         map_option records_of
           (file_at (snd (FileSorter_sort B ''in'' ''out'' uninit_desc (fs_with (lines_over B) {})))
              ''out'')
           = Some ((4, ''c'') # replicate B (4, ''a''))"
proof -
  let ?s = "fs_with (lines_over B) {}"
  let ?r = "FileSorter_sort B ''in'' ''out'' uninit_desc ?s"
  from sort_over [OF assms] obtain t where t: "fst ?r"
    "file_at (snd ?r) ''out'' = Some (''4:c'' @ [newline] @ t)"
    by blast
  from t(1) have ok: "?r = (True, snd ?r)" by (cases ?r) simp
  from assms have B: "0 < B" by simp
  have w: "\<forall>i. createTempFile ''out'' i \<notin> unwritable ?s" by (simp add: fs_with_def)
  have c: "file_at ?s ''in'' = Some (lines_over B)" by (simp add: fs_with_def)
  from sort_stable_sort [OF ok B w c] t(2)
  have "mset (records_of (''4:c'' @ [newline] @ t)) = mset (records_of (lines_over B))"
    by auto
  then have "mset ((4 :: 64 word, ''c'') # records_of t)
             = mset (replicate B (4, ''a'') @ [(4, ''c'')])"
    unfolding records_of_4c_first records_of_lines_over .
  then have "mset (records_of t) = mset (replicate B (4 :: 64 word, ''a''))"
    by simp
  from mset_replicate_eq [OF this] have "records_of t = replicate B (4, ''a'')" .
  with records_of_4c_first [of t]
  have "records_of (''4:c'' @ [newline] @ t) = (4, ''c'') # replicate B (4, ''a'')"
    by simp
  with t(2) have "map_option records_of (file_at (snd ?r) ''out'')
                  = Some ((4, ''c'') # replicate B (4, ''a''))"
    by simp
  with t(1) show ?thesis by blast
qed

section \<open>The claims about the whole sort\<close>

subsection \<open>Sortedness\<close>

text \<open>
  Claim C2: whenever \<open>FileSorter::sort\<close> returns true, the output file exists, each of its
  lines is a record, and for every two adjacent records the key of the first is at most the
  key of the second. This holds for every batch size, every file system and every content
  of the uninitialised storage of the merge.
\<close>

theorem output_sorted:
  assumes "FileSorter_sort B inp out uninit s = (True, s')"
  shows "\<exists>content. file_at s' out = Some content \<and>
           list_all well_formed (lines_of content) \<and>
           (\<forall>i. Suc i < length (records_of content) \<longrightarrow>
                  fst (records_of content ! i) \<le> fst (records_of content ! Suc i))"
proof -
  from sort_output [OF assms] obtain ps where ps:
    "file_at s' out = Some (concat (map format_kv ps))" "sorted (map fst ps)"
    "\<forall>p \<in> set ps. newline \<notin> set (snd p)"
    by blast
  let ?c = "concat (map format_kv ps)"
  from records_of_concat_format_kv [OF ps(3)]
  have r: "records_of ?c = ps" and w: "list_all well_formed (lines_of ?c)" by auto
  have "fst (ps ! i) \<le> fst (ps ! Suc i)" if "Suc i < length ps" for i
    using ps(2) that sorted_iff_nth_Suc [of "map fst ps"] by auto
  with ps(1) r w show ?thesis by auto
qed

theorem output_sorted_witness:
  "file_at (snd (FileSorter_sort BATCH_SIZE ''in'' ''out'' uninit_zero (fs_with lines_5351 {}))) ''out''
     = Some (''1:d'' @ [newline] @ ''3:b'' @ [newline] @ ''5:a'' @ [newline] @ ''5:c'' @ [newline]) \<and>
   fst (records_of (''1:d'' @ [newline] @ ''3:b'' @ [newline] @ ''5:a'' @ [newline] @ ''5:c'' @ [newline]) ! 0)
     \<le> fst (records_of (''1:d'' @ [newline] @ ''3:b'' @ [newline] @ ''5:a'' @ [newline] @ ''5:c'' @ [newline]) ! Suc 0)"
proof -
  let ?c = "''1:d'' @ [newline] @ ''3:b'' @ [newline] @ ''5:a'' @ [newline] @ ''5:c'' @ [newline]"
  from output_sorted [OF run_5351] obtain content where c:
    "[''in'' \<mapsto> lines_5351, ''out'' \<mapsto> ?c] ''out'' = Some content"
    "\<forall>i. Suc i < length (records_of content) \<longrightarrow>
          fst (records_of content ! i) \<le> fst (records_of content ! Suc i)"
    by auto
  from c(1) have e: "content = ?c" by simp
  have "length (records_of ?c) = 4"
    by (simp add: records_of_def kv_of_lines_def well_formed_def run_simps newline_def)
  with c(2) [unfolded e] have "fst (records_of ?c ! 0) \<le> fst (records_of ?c ! Suc 0)"
    by simp
  then show ?thesis by (simp add: run_5351)
qed

subsection \<open>Resource failures\<close>

text \<open>
  The parts of claim C4 that hold: when the input cannot be opened, \<open>sort\<close> returns false
  and changes nothing; when the output cannot be created, \<open>sort\<close> returns false; and \<open>main\<close>
  exits with status 1 exactly when \<open>sort\<close> returns false or the arguments are not two.
\<close>

lemma sort_fails_without_input:
  "file_at s inp = None \<or> inp \<in> unreadable s \<Longrightarrow>
   FileSorter_sort B inp out uninit s = (False, s)"
  by (auto simp: FileSorter_sort_def open_ifstream_def split: option.splits)

lemma mergeTempFiles_unwritable:
  "out \<in> unwritable s \<Longrightarrow> \<not> fst (mergeTempFiles out uninit s n)"
  by (auto simp: mergeTempFiles_def Let_def open_ofstream_def split: option.splits prod.splits)

lemma sort_fails_without_output:
  assumes "out \<in> unwritable s"
  shows "\<not> fst (FileSorter_sort B inp out uninit s)"
proof (cases "failbit (open_ifstream s inp)")
  case True
  then show ?thesis by (simp add: FileSorter_sort_def)
next
  case False
  obtain s1 n where sl: "sortLoop B out s (open_ifstream s inp) 0 0 = (s1, n)"
    by (cases "sortLoop B out s (open_ifstream s inp) 0 0")
  from sortLoop_runs [OF sl] have "unwritable s1 = unwritable s" by blast
  with assms have "out \<in> unwritable s1" by simp
  with False sl mergeTempFiles_unwritable [of out s1 uninit n] show ?thesis
    by (simp add: FileSorter_sort_def open_ofstream_def)
qed

lemma main_exit_status:
  "fst (main_exit B argv uninit s)
     = (if length argv = 3 \<and> fst (FileSorter_sort B (argv ! 1) (argv ! 2) uninit s) then 0 else 1)"
  by (auto simp: main_exit_def split: prod.splits)

text \<open>
  Claim C4 says that a failure to create a temporary run file aborts the sort with a
  non-zero exit status and that no partial output is presented as the result. \<open>sortBatch\<close>
  reports that failure with the same \<open>return false\<close> (source line 93) as the end of the
  input (line 79), and the loop of \<open>sort\<close> takes both as the end of the input. With the input
  \<open>1:a\<close> and a run file \<open>out.temp0\<close> that cannot be created, the program writes an empty
  output file and exits with status 0.
\<close>

theorem temp_failure_exits_zero:
  "main_exit BATCH_SIZE [''sort'', ''in'', ''out''] uninit_zero
       (fs_with (''1:a'' @ [newline]) {''out.temp0''})
     = (0, \<lparr>file_at = [''in'' \<mapsto> ''1:a'' @ [newline], ''out'' \<mapsto> []],
            unreadable = {}, unwritable = {''out.temp0''}\<rparr>)"
  by (simp add: run_simps newline_def)

subsection \<open>Conservation\<close>

text \<open>
  Claim C3 says that on every input on which the sort succeeds the records of the output
  are the records of the well-formed input lines. In the run above \<open>sort\<close> returns true,
  the input has the record \<open>(1, a)\<close> and the output has no record: the batch whose run file
  could not be created is lost (the defect of claim C4).
\<close>

theorem temp_failure_loses_records:
  "FileSorter_sort BATCH_SIZE ''in'' ''out'' uninit_zero
       (fs_with (''1:a'' @ [newline]) {''out.temp0''})
     = (True, \<lparr>file_at = [''in'' \<mapsto> ''1:a'' @ [newline], ''out'' \<mapsto> []],
               unreadable = {}, unwritable = {''out.temp0''}\<rparr>) \<and>
   records_of (''1:a'' @ [newline]) = [(1, ''a'')] \<and> records_of [] = []"
  by (simp add: run_simps newline_def records_of_def kv_of_lines_def well_formed_def kv_of_def)

subsection \<open>Temporary files\<close>

text \<open>
  Claim C8 says that every run file is deleted on the failure paths too. The failure paths
  of \<open>mergeTempFiles\<close> return without removing anything (source lines 116-119, 158-161,
  166-169): with the input \<open>1:a\<close> and an output that cannot be created, \<open>sort\<close> returns
  false and the run file \<open>out.temp0\<close> is still there.
\<close>

theorem output_failure_leaves_run:
  "FileSorter_sort BATCH_SIZE ''in'' ''out'' uninit_zero
       (fs_with (''1:a'' @ [newline]) {''out''})
     = (False, \<lparr>file_at = [''in'' \<mapsto> ''1:a'' @ [newline],
                           ''out.temp0'' \<mapsto> ''1:a'' @ [newline]],
               unreadable = {}, unwritable = {''out''}\<rparr>)"
  by (simp add: run_simps newline_def)

text \<open>
  What the two phases do to the run files. The batch phase creates the run files
  \<open>out.temp0\<close> .. \<open>out.temp(n-1)\<close> and changes no other path. A failing \<open>mergeTempFiles\<close>
  changes no path but the output; a failing \<open>sort\<close> leaves every path but the output as
  the batch phase left it; a successful \<open>sort\<close> removes the run files.
\<close>

lemma mergeTempFiles_False:
  assumes "mergeTempFiles out uninit s1 n = (False, s')"
  shows "\<forall>p. p \<noteq> out \<longrightarrow> file_at s' p = file_at s1 p"
  using assms
  by (auto simp: mergeTempFiles_def Let_def open_ofstream_def
      split: if_splits option.splits prod.splits)

lemma sortLoop_created:
  assumes "sortLoop B out s inp 0 lp = (s1, n)"
  shows "(\<forall>i<n. file_at s1 (createTempFile out i) \<noteq> None) \<and>
         (\<forall>p. (\<forall>i<n. p \<noteq> createTempFile out i) \<longrightarrow> file_at s1 p = file_at s p)"
proof -
  from sortLoop_runs [OF assms] obtain batches where b:
    "n = 0 + length batches"
    "\<forall>i < length batches. file_at s1 (createTempFile out (0 + i))
           = Some (concat (map format_line (sort_key key (batches ! i))))"
    "\<forall>p. (\<forall>i < length batches. p \<noteq> createTempFile out (0 + i)) \<longrightarrow>
           file_at s1 p = file_at s p"
    by blast
  from b(1) have n: "length batches = n" by simp
  from b(2) have "\<forall>i<n. file_at s1 (createTempFile out i) \<noteq> None"
    unfolding n by simp
  moreover from b(3) have "\<forall>p. (\<forall>i<n. p \<noteq> createTempFile out i) \<longrightarrow> file_at s1 p = file_at s p"
    unfolding n by simp
  ultimately show ?thesis by blast
qed

lemma sort_failure_keeps_paths:
  assumes "FileSorter_sort B inp out uninit s = (False, s')"
    and "sortLoop B out s (open_ifstream s inp) 0 0 = (s1, n)"
  shows "\<forall>p. p \<noteq> out \<longrightarrow> file_at s' p = file_at s1 p"
proof (cases "failbit (open_ifstream s inp)")
  case True
  then have av: "avail (open_ifstream s inp) = []" by (simp add: avail_def)
  from sortLoop_runs [OF assms(2)] obtain batches m where b:
    "n = 0 + length batches" "[] \<notin> set batches" "m \<le> length (avail (open_ifstream s inp))"
    "concat batches = numbered_records 0 (take m (avail (open_ifstream s inp)))"
    "\<forall>p. (\<forall>i < length batches. p \<noteq> createTempFile out (0 + i)) \<longrightarrow>
           file_at s1 p = file_at s p"
    by blast
  from b(4) av have "concat batches = []" by simp
  with b(2) have "batches = []" by (cases batches) auto
  with b(5) have "\<forall>p. file_at s1 p = file_at s p" by simp
  moreover from assms(1) True have "s' = s" by (simp add: FileSorter_sort_def Let_def)
  ultimately show ?thesis by simp
next
  case False
  show ?thesis
  proof (cases "n = 0")
    case True
    with assms False show ?thesis
      by (auto simp: FileSorter_sort_def Let_def open_ofstream_def split: if_splits)
  next
    case n: False
    with assms False have "mergeTempFiles out uninit s1 n = (False, s')"
      by (simp add: FileSorter_sort_def Let_def)
    then show ?thesis by (rule mergeTempFiles_False)
  qed
qed

lemma sort_success_removes_runs:
  assumes "FileSorter_sort B inp out uninit s = (True, s')"
    and "sortLoop B out s (open_ifstream s inp) 0 0 = (s1, n)"
  shows "(\<forall>i<n. file_at s' (createTempFile out i) = None) \<and>
         (\<forall>p. p \<noteq> out \<and> (\<forall>i<n. p \<noteq> createTempFile out i) \<longrightarrow> file_at s' p = file_at s p)"
proof -
  from sort_output [OF assms(1)] obtain batches where b:
    "\<forall>p. p \<noteq> out \<longrightarrow>
           file_at s' p = (if \<exists>i<length batches. p = createTempFile out i then None
                           else file_at s p)"
    "snd (sortLoop B out s (open_ifstream s inp) 0 0) = length batches"
    "\<forall>i<length batches.
          file_at (fst (sortLoop B out s (open_ifstream s inp) 0 0)) (createTempFile out i)
            = Some (concat (map format_line (sort_key key (batches ! i))))"
    by blast
  from assms(2) have "snd (sortLoop B out s (open_ifstream s inp) 0 0) = n"
    by (simp only: snd_conv)
  with b(2) have n: "length batches = n" by (simp only:)
  from b(1) have c: "\<forall>p. p \<noteq> out \<longrightarrow>
           file_at s' p = (if \<exists>i<n. p = createTempFile out i then None else file_at s p)"
    unfolding n .
  have g: "file_at s' (createTempFile out i) = None" if "i < n" for i
  proof -
    from c createTempFile_neq_out [of out i]
    have "file_at s' (createTempFile out i)
            = (if \<exists>j<n. createTempFile out i = createTempFile out j then None
               else file_at s (createTempFile out i))"
      by blast
    moreover from that have "\<exists>j<n. createTempFile out i = createTempFile out j" by blast
    ultimately show ?thesis by simp
  qed
  have h: "file_at s' p = file_at s p"
    if "p \<noteq> out \<and> (\<forall>i<n. p \<noteq> createTempFile out i)" for p
  proof -
    from c that
    have "file_at s' p = (if \<exists>i<n. p = createTempFile out i then None else file_at s p)"
      by blast
    moreover from that have "\<not> (\<exists>i<n. p = createTempFile out i)" by blast
    ultimately show ?thesis by simp
  qed
  from g h show ?thesis by blast
qed

text \<open>
  Runs of the three lines \<open>4:a\<close>, \<open>4:b\<close>, \<open>4:c\<close> with batches of two records: the batch
  phase writes two run files; the sort succeeds when everything can be opened, and fails
  when the second run file cannot be read or the output cannot be created.
\<close>

lemma loop_444:
  "snd (sortLoop 2 ''out'' (fs_locked lines_444 R W) (open_ifstream (fs_locked lines_444 R W) ''in'') 0 0) = 2"
  if "''in'' \<notin> R" "''out.temp0'' \<notin> W" "''out.temp1'' \<notin> W"
  using that by (simp add: run_simps fs_locked_def lines_444_def newline_def)

lemma fail_444_run:
  "\<not> fst (FileSorter_sort 2 ''in'' ''out'' uninit_zero (fs_locked lines_444 {''out.temp1''} {}))"
  by (simp add: run_simps fs_locked_def lines_444_def newline_def uninit_zero_def)

lemma fail_444_out:
  "\<not> fst (FileSorter_sort 2 ''in'' ''out'' uninit_zero (fs_locked lines_444 {} {''out''}))"
  by (simp add: run_simps fs_locked_def lines_444_def newline_def uninit_zero_def)

lemma ok_444:
  "fst (FileSorter_sort 2 ''in'' ''out'' uninit_zero (fs_locked lines_444 {} {}))"
  by (simp add: run_simps fs_locked_def lines_444_def newline_def uninit_zero_def)

text \<open>
  Claim C8 as amended. Let the batch phase of a call of \<open>sort\<close> end in the file system
  \<open>s1\<close> with \<open>n\<close> run files. The batch phase created these \<open>n\<close> files and changed no other
  path. When \<open>sort\<close> returns true, every one of them is gone at the end, and every other
  path except the output holds what it held before the call. When \<open>sort\<close> returns false,
  as it does on the failure paths of the merge (a run file cannot be opened, the output
  cannot be created), nothing is deleted: every run file, and every other path except the
  output, holds what the batch phase left there.
\<close>

theorem runs_removed_only_on_success:
  assumes "FileSorter_sort B inp out uninit s = (ok, s')"
    and "sortLoop B out s (open_ifstream s inp) 0 0 = (s1, n)"
  shows "(\<forall>i<n. file_at s1 (createTempFile out i) \<noteq> None) \<and>
         (\<forall>p. (\<forall>i<n. p \<noteq> createTempFile out i) \<longrightarrow> file_at s1 p = file_at s p) \<and>
         (ok \<longrightarrow> (\<forall>i<n. file_at s' (createTempFile out i) = None) \<and>
                 (\<forall>p. p \<noteq> out \<and> (\<forall>i<n. p \<noteq> createTempFile out i)
                      \<longrightarrow> file_at s' p = file_at s p)) \<and>
         (\<not> ok \<longrightarrow> (\<forall>i<n. file_at s' (createTempFile out i)
                                = file_at s1 (createTempFile out i)) \<and>
                   (\<forall>p. p \<noteq> out \<longrightarrow> file_at s' p = file_at s1 p))"
proof -
  note c = sortLoop_created [OF assms(2)]
  have t: "(\<forall>i<n. file_at s' (createTempFile out i) = None) \<and>
           (\<forall>p. p \<noteq> out \<and> (\<forall>i<n. p \<noteq> createTempFile out i)
                \<longrightarrow> file_at s' p = file_at s p)" if ok
    using sort_success_removes_runs [OF _ assms(2)] assms(1) that by simp
  have f: "\<forall>p. p \<noteq> out \<longrightarrow> file_at s' p = file_at s1 p" if "\<not> ok"
    using sort_failure_keeps_paths [OF _ assms(2)] assms(1) that by simp
  have f': "\<forall>i<n. file_at s' (createTempFile out i) = file_at s1 (createTempFile out i)"
    if "\<not> ok"
    using f [OF that] createTempFile_neq_out [of out] by simp
  show ?thesis
  proof (cases ok)
    case True
    with c t [OF True] show ?thesis by simp
  next
    case False
    with c f [OF False] f' [OF False] show ?thesis by simp
  qed
qed

theorem runs_removed_only_on_success_witness:
  "(file_at (fst (sortLoop 2 ''out'' (fs_locked lines_444 {} {})
                    (open_ifstream (fs_locked lines_444 {} {}) ''in'') 0 0)) ''out.temp0'' \<noteq> None \<and>
    file_at (fst (sortLoop 2 ''out'' (fs_locked lines_444 {} {})
                    (open_ifstream (fs_locked lines_444 {} {}) ''in'') 0 0)) ''out.temp1'' \<noteq> None \<and>
    fst (FileSorter_sort 2 ''in'' ''out'' uninit_zero (fs_locked lines_444 {} {})) \<and>
    file_at (snd (FileSorter_sort 2 ''in'' ''out'' uninit_zero (fs_locked lines_444 {} {})))
      ''out.temp0'' = None \<and>
    file_at (snd (FileSorter_sort 2 ''in'' ''out'' uninit_zero (fs_locked lines_444 {} {})))
      ''out.temp1'' = None) \<and>
   (\<not> fst (FileSorter_sort 2 ''in'' ''out'' uninit_zero (fs_locked lines_444 {''out.temp1''} {})) \<and>
    file_at (snd (FileSorter_sort 2 ''in'' ''out'' uninit_zero
                    (fs_locked lines_444 {''out.temp1''} {}))) ''out.temp0''
      = Some (''4:a'' @ [newline] @ ''4:b'' @ [newline]) \<and>
    file_at (snd (FileSorter_sort 2 ''in'' ''out'' uninit_zero
                    (fs_locked lines_444 {''out.temp1''} {}))) ''out.temp1''
      = Some (''4:c'' @ [newline])) \<and>
   (\<not> fst (FileSorter_sort 2 ''in'' ''out'' uninit_zero (fs_locked lines_444 {} {''out''})) \<and>
    file_at (snd (FileSorter_sort 2 ''in'' ''out'' uninit_zero
                    (fs_locked lines_444 {} {''out''}))) ''out.temp0''
      = Some (''4:a'' @ [newline] @ ''4:b'' @ [newline]) \<and>
    file_at (snd (FileSorter_sort 2 ''in'' ''out'' uninit_zero
                    (fs_locked lines_444 {} {''out''}))) ''out.temp1''
      = Some (''4:c'' @ [newline]))"
proof -
  have run: "file_at (fst (sortLoop 2 ''out'' (fs_locked lines_444 R W)
                             (open_ifstream (fs_locked lines_444 R W) ''in'') 0 0)) ''out.temp0''
               = Some (''4:a'' @ [newline] @ ''4:b'' @ [newline]) \<and>
             file_at (fst (sortLoop 2 ''out'' (fs_locked lines_444 R W)
                             (open_ifstream (fs_locked lines_444 R W) ''in'') 0 0)) ''out.temp1''
               = Some (''4:c'' @ [newline])"
    if "''in'' \<notin> R" "''out.temp0'' \<notin> W" "''out.temp1'' \<notin> W" for R W
    using that by (simp add: run_simps fs_locked_def lines_444_def newline_def)
  have two: "(\<forall>i<2. Q i) = (Q 0 \<and> Q (Suc 0))" for Q :: "nat \<Rightarrow> bool"
    by (simp add: numeral_2_eq_2 less_Suc_eq all_conj_distrib)
  note t = runs_removed_only_on_success [OF prod.collapse [symmetric] prod.collapse [symmetric]]
  from t [where B = 2 and inp = "''in''" and out = "''out''" and uninit = uninit_zero and s = "fs_locked lines_444 {} {}"]
  have s: "file_at (snd (FileSorter_sort 2 ''in'' ''out'' uninit_zero (fs_locked lines_444 {} {})))
      ''out.temp0'' = None \<and>
    file_at (snd (FileSorter_sort 2 ''in'' ''out'' uninit_zero (fs_locked lines_444 {} {})))
      ''out.temp1'' = None"
    by (simp add: loop_444 ok_444 two temp_paths)
  from t [where B = 2 and inp = "''in''" and out = "''out''" and uninit = uninit_zero and s = "fs_locked lines_444 {''out.temp1''} {}"]
  have r: "file_at (snd (FileSorter_sort 2 ''in'' ''out'' uninit_zero
                    (fs_locked lines_444 {''out.temp1''} {}))) ''out.temp0''
      = Some (''4:a'' @ [newline] @ ''4:b'' @ [newline]) \<and>
    file_at (snd (FileSorter_sort 2 ''in'' ''out'' uninit_zero
                    (fs_locked lines_444 {''out.temp1''} {}))) ''out.temp1''
      = Some (''4:c'' @ [newline])"
    using run [of "{''out.temp1''}" "{}"]
    by (simp add: loop_444 fail_444_run two temp_paths)
  from t [where B = 2 and inp = "''in''" and out = "''out''" and uninit = uninit_zero and s = "fs_locked lines_444 {} {''out''}"]
  have w: "file_at (snd (FileSorter_sort 2 ''in'' ''out'' uninit_zero
                    (fs_locked lines_444 {} {''out''}))) ''out.temp0''
      = Some (''4:a'' @ [newline] @ ''4:b'' @ [newline]) \<and>
    file_at (snd (FileSorter_sort 2 ''in'' ''out'' uninit_zero
                    (fs_locked lines_444 {} {''out''}))) ''out.temp1''
      = Some (''4:c'' @ [newline])"
    using run [of "{}" "{''out''}"]
    by (simp add: loop_444 fail_444_out two temp_paths)
  from s r w run [of "{}" "{}"] ok_444 fail_444_run fail_444_out show ?thesis
    by simp
qed

subsection \<open>Stability across runs\<close>

text \<open>
  Claim C1 says that two records with equal keys come out in the order of their input
  lines, also when they went to different runs. The merge breaks ties on \<open>originalIndex\<close>
  of the head slots (source lines 181-182), but the run files do not hold that field and
  \<open>parseKeyValue\<close> does not write it: what is compared is the content the storage of the
  vector had before the entries were built (source lines 134-136, 153-157). With the
  program's batch size, an input of \<open>BATCH_SIZE\<close> lines \<open>4:a\<close> followed by the line \<open>4:c\<close>,
  and storage in which the second entry holds a smaller number than the first, the sort
  returns true and the output holds the record \<open>(4, c)\<close> of the last input line first
  and the records \<open>(4, a)\<close> after it.
\<close>

theorem cross_run_tie_reordered:
  "fst (FileSorter_sort BATCH_SIZE ''in'' ''out'' uninit_desc (fs_with (lines_over BATCH_SIZE) {})) \<and>
   records_of (lines_over BATCH_SIZE) = replicate BATCH_SIZE (4, ''a'') @ [(4, ''c'')] \<and>
   map_option records_of
     (file_at (snd (FileSorter_sort BATCH_SIZE ''in'' ''out'' uninit_desc
                      (fs_with (lines_over BATCH_SIZE) {}))) ''out'')
     = Some ((4, ''c'') # replicate BATCH_SIZE (4, ''a''))"
  using sort_over_records [OF batch_size_gt_1] by (simp add: records_of_lines_over)

subsection \<open>Sorting a sorted file again\<close>

text \<open>
  Claim C9 says that sorting a file that is already a sorted file of this format gives
  the same bytes. The program does not copy lines: it parses each line and writes the key
  again in decimal and a newline after every record. The one-line file \<open>007:x\<close> is
  accepted without a warning and comes out as \<open>7:x\<close>.
\<close>

theorem resort_rewrites_key:
  "list_all well_formed (lines_of (''007:x'' @ [newline])) \<and>
   FileSorter_sort BATCH_SIZE ''in'' ''out'' uninit_zero (fs_with (''007:x'' @ [newline]) {})
     = (True, \<lparr>file_at = [''in'' \<mapsto> ''007:x'' @ [newline], ''out'' \<mapsto> ''7:x'' @ [newline]],
               unreadable = {}, unwritable = {}\<rparr>)"
proof -
  let ?r = "FileSorter_sort BATCH_SIZE ''in'' ''out'' uninit_zero (fs_with (''007:x'' @ [newline]) {})"
  have "list_all well_formed (lines_of (''007:x'' @ [newline]))"
    by (simp add: well_formed_def run_simps newline_def)
  moreover have "fst ?r"
    by (simp add: run_simps newline_def format_line_def to_string.simps digit_char_def)
  moreover have "file_at (snd ?r)
      = [''in'' \<mapsto> ''007:x'' @ [newline], ''out'' \<mapsto> ''7:x'' @ [newline]]"
    by (rule ext)
       (simp add: run_simps newline_def format_line_def to_string.simps digit_char_def)
  moreover have "unreadable (snd ?r) = {}" "unwritable (snd ?r) = {}"
    by (simp_all add: run_simps newline_def format_line_def to_string.simps digit_char_def)
  ultimately show ?thesis
    by (cases ?r) (auto intro: fs.equality)
qed

text \<open>
  Claim C9 as amended: for a file that is exactly the text the program writes for a list
  of records with non-decreasing keys (keys in decimal without leading zeros, every line
  ended by a newline) and that holds at most \<open>BATCH_SIZE\<close> records, a sort that returns
  true and whose run files can be created writes an output with the same bytes. Nothing is
  said here about files of more records than one batch.
\<close>

theorem resort_single_batch_identical:
  assumes ok: "FileSorter_sort B inp out uninit s = (True, s')"
    and B: "0 < B" and le: "length rs \<le> B"
    and w: "\<forall>i. createTempFile out i \<notin> unwritable s"
    and c: "file_at s inp = Some (concat (map format_kv rs))"
    and so: "sorted (map fst rs)"
    and nl: "\<forall>p \<in> set rs. newline \<notin> set (snd p)"
  shows "file_at s' out = Some (concat (map format_kv rs))"
proof -
  let ?n = "snd (sortLoop B out s (open_ifstream s inp) 0 0)"
  from records_of_concat_format_kv(1) [OF nl] have r: "records_of (concat (map format_kv rs)) = rs" .
  from sort_key_id_if_sorted [OF so] have id: "sort_key fst rs = rs" .
  from sort_stable_sort [OF ok B w c] obtain content where f:
    "file_at s' out = Some content"
    "sorted (map (\<lambda>i. originalIndex (uninit i)) [0..<?n]) \<longrightarrow>
        content = concat (map format_kv (sort_key fst (records_of (concat (map format_kv rs)))))"
    "length (records_of (concat (map format_kv rs))) \<le> B \<longrightarrow> ?n \<le> 1"
    by blast
  from f(3) le r have "?n = 0 \<or> ?n = 1" by auto
  then have "sorted (map (\<lambda>i. originalIndex (uninit i)) [0..<?n])" by auto
  with f(1,2) r id show ?thesis by simp
qed

theorem resort_single_batch_identical_witness:
  "file_at (snd (FileSorter_sort BATCH_SIZE ''in'' ''out'' uninit_zero
                   (fs_with (concat (map format_kv [(1, ''d''), (3, ''b''), (5, ''a''), (5, ''c'')])) {})))
      ''out''
     = Some (concat (map format_kv [(1, ''d''), (3, ''b''), (5, ''a''), (5, ''c'')]))"
proof -
  let ?rs = "[(1 :: 64 word, ''d''), (3, ''b''), (5, ''a''), (5, ''c'')]"
  let ?s = "fs_with (concat (map format_kv ?rs)) {}"
  let ?r = "FileSorter_sort BATCH_SIZE ''in'' ''out'' uninit_zero ?s"
  have "fst ?r"
    by (simp add: run_simps newline_def format_kv_def to_string.simps digit_char_def)
  then have ok: "?r = (True, snd ?r)" by (cases ?r) simp
  show ?thesis
  proof (rule resort_single_batch_identical [OF ok])
    show "0 < BATCH_SIZE" by (simp add: BATCH_SIZE_def)
    show "length ?rs \<le> BATCH_SIZE" by (simp add: BATCH_SIZE_def)
    show "\<forall>i. createTempFile ''out'' i \<notin> unwritable ?s" by (simp add: fs_with_def)
    show "file_at ?s ''in'' = Some (concat (map format_kv ?rs))" by (simp add: fs_with_def)
    show "sorted (map fst ?rs)" by (simp add: word_le_nat_alt)
    show "\<forall>p \<in> set ?rs. newline \<notin> set (snd p)" by (simp add: newline_def)
  qed
qed

text \<open>
  For a file of more records than one batch the bytes can change: the file of the run
  above for claim C1 is the text the program writes for a list of records with
  non-decreasing keys, and the output of that run differs from it. When the numbers in the
  storage of the merge entries do not decrease, such a file is written again unchanged
  (\<open>resort_identical\<close>).
\<close>

lemma resort_over_batch_changes:
  "lines_over BATCH_SIZE
     = concat (map format_kv (replicate BATCH_SIZE (4, ''a'') @ [(4, ''c'')])) \<and>
   sorted (map fst (replicate BATCH_SIZE (4 :: 64 word, ''a'') @ [(4, ''c'')])) \<and>
   fst (FileSorter_sort BATCH_SIZE ''in'' ''out'' uninit_desc (fs_with (lines_over BATCH_SIZE) {})) \<and>
   file_at (snd (FileSorter_sort BATCH_SIZE ''in'' ''out'' uninit_desc
                   (fs_with (lines_over BATCH_SIZE) {}))) ''out''
     \<noteq> Some (lines_over BATCH_SIZE)"
proof -
  from sort_over [OF batch_size_gt_1] obtain t where t:
    "fst (FileSorter_sort BATCH_SIZE ''in'' ''out'' uninit_desc (fs_with (lines_over BATCH_SIZE) {}))"
    "file_at (snd (FileSorter_sort BATCH_SIZE ''in'' ''out'' uninit_desc
                      (fs_with (lines_over BATCH_SIZE) {}))) ''out''
       = Some (''4:c'' @ [newline] @ t)"
    by blast
  obtain n where n: "BATCH_SIZE = Suc n"
    using batch_size_gt_1 by (cases BATCH_SIZE) auto
  have a: "lines_over BATCH_SIZE ! 2 = CHR ''a''"
    by (simp add: lines_over_def n)
  have c: "(''4:c'' @ [newline] @ t) ! 2 = CHR ''c''" by simp
  have ne: "''4:c'' @ [newline] @ t \<noteq> lines_over BATCH_SIZE"
  proof
    assume "''4:c'' @ [newline] @ t = lines_over BATCH_SIZE"
    with a c have "CHR ''c'' = CHR ''a''" by (simp only:)
    then show False by simp
  qed
  have so: "sorted (map fst (replicate BATCH_SIZE (4 :: 64 word, ''a'') @ [(4, ''c'')]))"
    by (simp add: sorted_append map_replicate_const sorted_replicate)
  from t ne so lines_over_formatted [of BATCH_SIZE] show ?thesis by simp
qed

end
